theory Spec2Isabelle
  imports Complex_Main
begin

section \<open>The response writer of the compress middleware\<close>

text \<open>
  The development embeds \<^verbatim>\<open>respWriter\<close> and \<^verbatim>\<open>trackingResponseWriter\<close>
  (the two Go files of the response path) as state-passing functions. A Go byte is an
  Isabelle \<open>char\<close>, so a \<^verbatim>\<open>[]byte\<close> and a Go string are both \<open>string\<close>.
  Byte counts are Go \<^verbatim>\<open>int\<close>s (64 bit); they count bytes held in memory or sent
  on one connection, stay far below \<open>2 ^ 63\<close>, and are modelled as unbounded \<open>int\<close>.
\<close>

type_synonym bytes = string

subsection \<open>Errors\<close>

text \<open>
  \<open>ErrShortWrite\<close> is \<^verbatim>\<open>io.ErrShortWrite\<close>; \<open>TransportError\<close> is whatever error
  the connection returns, told apart by its message; \<open>NilCompressorPanic\<close> stands for
  the run-time panic of calling a method of the nil \<^verbatim>\<open>rw.compressor\<close>, and
  \<open>InvalidWriteCountPanic\<close> for the panic of \<^verbatim>\<open>bytes.Buffer.WriteTo\<close> when the
  writer it copies to reports more bytes than it was given.
\<close>

datatype error = ErrShortWrite | TransportError string | NilCompressorPanic | InvalidWriteCountPanic

subsection \<open>The header map\<close>

text \<open>
  \<^verbatim>\<open>http.Header\<close> is a map from canonical header names to value lists;
  \<^verbatim>\<open>Set\<close> stores a one-element list, \<^verbatim>\<open>Del\<close> removes the key and
  \<^verbatim>\<open>Get\<close> reads the first value or the empty string.
\<close>

type_synonym header = "string \<rightharpoonup> string list"

definition header_Set :: "string \<Rightarrow> string \<Rightarrow> header \<Rightarrow> header" where
  "header_Set k v h = h(k \<mapsto> [v])"

definition header_Del :: "string \<Rightarrow> header \<Rightarrow> header" where
  "header_Del k h = h(k := None)"

definition header_Get :: "string \<Rightarrow> header \<Rightarrow> string" where
  "header_Get k h = (case h k of None \<Rightarrow> [] | Some [] \<Rightarrow> [] | Some (v # _) \<Rightarrow> v)"

subsection \<open>The transport: \<^verbatim>\<open>gin.ResponseWriter\<close>\<close>

text \<open>
  The writer the middleware wraps (\<^verbatim>\<open>c.Writer\<close>) belongs to the web framework, so it
  is modelled by what it observes: the header map, the status codes passed to
  \<^verbatim>\<open>WriteHeader\<close> (which records the code and writes nothing), the bytes it
  accepted, and the header map as it stood when the first body write arrived
  (\<open>sent\<close>: an HTTP server emits the headers in front of the first body byte, and
  later changes of the map are not transmitted). Its failures are
  scripted: \<open>faults\<close> lists the outcomes of the coming \<^verbatim>\<open>Write\<close> calls, \<open>Refuse k m\<close>
  accepting at most \<open>k\<close> bytes and returning an error with message \<open>m\<close>; once the
  script is used up every write is accepted.
\<close>

datatype outcome = Accept | Refuse nat string

record sink =
  header :: header
  statuses :: "int list"
  sent :: "header option"
  body :: bytes
  faults :: "outcome list"

definition sink_Write :: "sink \<Rightarrow> bytes \<Rightarrow> (nat \<times> error option) \<times> sink" where
  "sink_Write s b =
     (let s1 = (case sent s of None \<Rightarrow> s\<lparr>sent := Some (header s)\<rparr> | Some _ \<Rightarrow> s) in
      case faults s1 of
        [] \<Rightarrow> ((length b, None), s1\<lparr>body := body s1 @ b\<rparr>)
      | Accept # fs \<Rightarrow> ((length b, None), s1\<lparr>body := body s1 @ b, faults := fs\<rparr>)
      | Refuse k m # fs \<Rightarrow>
          ((min k (length b), Some (TransportError m)),
           s1\<lparr>body := body s1 @ take k b, faults := fs\<rparr>))"

definition sink_WriteHeader :: "sink \<Rightarrow> int \<Rightarrow> sink" where
  "sink_WriteHeader s code = s\<lparr>statuses := statuses s @ [code]\<rparr>"

subsection \<open>\<^verbatim>\<open>trackingResponseWriter\<close>\<close>

text \<open>
  The tracker embeds the transport and counts the bytes it accepted. It is built with a
  nil metrics handler, replaced by the no-op handler, and its \<^verbatim>\<open>Close\<close> is never
  called by \<^verbatim>\<open>respWriter\<close>; neither is modelled.
\<close>

record trackingResponseWriter =
  tw_ResponseWriter :: sink
  tw_bytesWritten :: int

definition newTrackingResponseWriter :: "sink \<Rightarrow> trackingResponseWriter" where
  "newTrackingResponseWriter w = \<lparr>tw_ResponseWriter = w, tw_bytesWritten = 0\<rparr>"

definition tw_Write :: "trackingResponseWriter \<Rightarrow> bytes \<Rightarrow> (nat \<times> error option) \<times> trackingResponseWriter" where
  "tw_Write tw b =
     (case sink_Write (tw_ResponseWriter tw) b of
        ((n, err), w) \<Rightarrow>
          ((n, err), tw\<lparr>tw_ResponseWriter := w, tw_bytesWritten := tw_bytesWritten tw + int n\<rparr>))"

subsection \<open>The compressor: \<^verbatim>\<open>algorithm.getWriter\<close>\<close>

text \<open>
  The codecs are external libraries, and the file that declares the \<^verbatim>\<open>algorithm\<close>
  interface is missing, so an algorithm is a parameter: an opaque stream transform with
  a state of type \<open>'c\<close>, as section 3 of the specification describes it. All that is
  fixed is how an encoder reaches the writer it wraps: by calls of \<^verbatim>\<open>Write\<close>. One
  call of the encoder is an \<open>encoder_run\<close>: \<open>Emit x k\<close> writes \<open>x\<close> to the wrapped
  writer and goes on with \<open>k\<close> applied to what that write returned, \<open>Done r\<close> returns
  \<open>r\<close>. So an encoder may buffer, write several times, react to a failed write as it
  likes and fail on its own. \<open>getWriter\<close> is the state of a new encoder, \<open>enc_Write\<close>
  its \<^verbatim>\<open>Write\<close> (returning the count, the error and the next state) and
  \<open>enc_Close\<close> its \<^verbatim>\<open>Close\<close>.
\<close>

datatype 'r encoder_run = Done 'r | Emit bytes "nat \<times> error option \<Rightarrow> 'r encoder_run"

record 'c algorithm =
  getWriter :: 'c
  enc_Write :: "'c \<Rightarrow> bytes \<Rightarrow> ((nat \<times> error option) \<times> 'c) encoder_run"
  enc_Close :: "'c \<Rightarrow> (error option \<times> 'c) encoder_run"

text \<open>\<open>drive\<close> runs a call of the encoder against the tracker it wraps.\<close>

primrec drive :: "'r encoder_run \<Rightarrow> trackingResponseWriter \<Rightarrow> 'r \<times> trackingResponseWriter" where
  "drive (Done r) tw = (r, tw)"
| "drive (Emit x k) tw = (case tw_Write tw x of (res, tw') \<Rightarrow> drive (k res) tw')"

text \<open>
  The compressor's \<^verbatim>\<open>Write\<close> and \<^verbatim>\<open>Close\<close> on the tracker it wraps. The count
  and the error are the encoder's own, whatever they are.
\<close>

definition compressor_Write ::
  "'c algorithm \<Rightarrow> 'c \<times> trackingResponseWriter \<Rightarrow> bytes \<Rightarrow>
     (nat \<times> error option) \<times> 'c \<times> trackingResponseWriter" where
  "compressor_Write A ct b =
     (case drive (enc_Write A (fst ct) b) (snd ct) of
        (((n, err), c'), tw') \<Rightarrow> ((n, err), c', tw'))"

definition compressor_Close ::
  "'c algorithm \<Rightarrow> 'c \<times> trackingResponseWriter \<Rightarrow> error option \<times> 'c \<times> trackingResponseWriter" where
  "compressor_Close A ct =
     (case drive (enc_Close A (fst ct)) (snd ct) of ((err, c'), tw') \<Rightarrow> (err, c', tw'))"

subsection \<open>\<^verbatim>\<open>bytes.Buffer\<close> and \<^verbatim>\<open>io.Copy\<close>\<close>

text \<open>
  The buffer is the list of its unread bytes. \<^verbatim>\<open>io.Copy(dst, buf)\<close> is
  \<^verbatim>\<open>buf.WriteTo(dst)\<close>: nothing is written when the buffer is empty, otherwise the
  whole content goes to \<open>dst\<close> in one \<^verbatim>\<open>Write\<close>. A count above the content
  panics, before anything else is looked at. Otherwise the bytes \<open>dst\<close> took are
  dropped from the buffer, and a count short of the content without an error is
  \<^verbatim>\<open>io.ErrShortWrite\<close>. The buffer is emptied on success.
\<close>

definition io_Copy ::
  "('w \<Rightarrow> bytes \<Rightarrow> (nat \<times> error option) \<times> 'w) \<Rightarrow> 'w \<Rightarrow> bytes \<Rightarrow>
     (nat \<times> error option) \<times> 'w \<times> bytes" where
  "io_Copy wr dst xs =
     (if xs = [] then ((0, None), dst, [])
      else
        (case wr dst xs of
           ((m, err), dst') \<Rightarrow>
             if length xs < m then ((0, Some InvalidWriteCountPanic), dst', xs)
             else
               (case err of
                  Some e \<Rightarrow> ((m, Some e), dst', drop m xs)
                | None \<Rightarrow>
                    if m \<noteq> length xs then ((m, Some ErrShortWrite), dst', drop m xs)
                    else ((m, None), dst', []))))"

subsection \<open>\<^verbatim>\<open>respWriter\<close>\<close>

record MetricsData =
  OriginalSize :: int
  CompressedSize :: int
  CompressionApplied :: bool
  EncodingUsed :: string

text \<open>
  The fields \<^verbatim>\<open>ResponseWriter\<close> and \<^verbatim>\<open>trackingWriter\<close> of the Go struct point to
  the same tracker, which is the one field \<open>ResponseWriter\<close> here. \<open>buf = None\<close> is
  the nil buffer, \<open>compressor = None\<close> the nil compressor. The metrics handler is a
  callback, taken to be non-nil (the tracker's constructor shows the no-op handler that
  stands for an absent one); \<open>metricsHandler\<close> is the list of the values the callback
  has been called with.
\<close>

record 'c respWriter =
  ResponseWriter :: trackingResponseWriter
  threshold :: int
  encoding :: string
  algo :: "'c algorithm"
  buf :: "bytes option"
  compressor :: "'c option"
  bytesWritten :: int
  compressedBytesCount :: int
  metricsHandler :: "MetricsData list"

definition newResponseWriter :: "sink \<Rightarrow> int \<Rightarrow> string \<Rightarrow> 'c algorithm \<Rightarrow> 'c respWriter" where
  "newResponseWriter w swapSize enc a =
     \<lparr>ResponseWriter = newTrackingResponseWriter w,
      threshold = swapSize,
      encoding = enc,
      algo = a,
      buf = Some [],
      compressor = None,
      bytesWritten = 0,
      compressedBytesCount = 0,
      metricsHandler = []\<rparr>"

definition Header :: "'c respWriter \<Rightarrow> header" where
  "Header rw = header (tw_ResponseWriter (ResponseWriter rw))"

definition map_Header :: "(header \<Rightarrow> header) \<Rightarrow> 'c respWriter \<Rightarrow> 'c respWriter" where
  "map_Header f rw =
     rw\<lparr>ResponseWriter :=
          (ResponseWriter rw)\<lparr>tw_ResponseWriter :=
            (tw_ResponseWriter (ResponseWriter rw))\<lparr>header := f (Header rw)\<rparr>\<rparr>\<rparr>"

definition Swapped :: "'c respWriter \<Rightarrow> bool" where
  "Swapped rw = (buf rw = None)"

text \<open>
  Lines 66 to 74 of \<^verbatim>\<open>Write\<close>: the swap to the compressor. The result is
  \<open>Some (copied, err)\<close> when \<^verbatim>\<open>io.Copy\<close> failed and \<^verbatim>\<open>Write\<close> returns early.
\<close>

definition swap :: "'c respWriter \<Rightarrow> bytes \<Rightarrow> (nat \<times> error) option \<times> 'c respWriter" where
  "swap rw b =
     (case buf rw of
        None \<Rightarrow> (None, rw)
      | Some xs \<Rightarrow>
          if threshold rw \<le> int (length xs) + int (length b) then
            (let rw1 = map_Header (header_Set ''Content-Encoding'' (encoding rw)) rw;
                 rw2 = map_Header (header_Set ''Vary'' ''Accept-Encoding'') rw1
             in case io_Copy (compressor_Write (algo rw2)) (getWriter (algo rw2), ResponseWriter rw2) xs of
                  ((copied, Some e), (c, tw), rest) \<Rightarrow>
                    (Some (copied, e), rw2\<lparr>compressor := Some c, ResponseWriter := tw, buf := Some rest\<rparr>)
                | ((copied, None), (c, tw), rest) \<Rightarrow>
                    (None, rw2\<lparr>compressor := Some c, ResponseWriter := tw, buf := None\<rparr>))
          else (None, rw))"

text \<open>Lines 76 to 88 of \<^verbatim>\<open>Write\<close>: the write to the compressor or to the buffer.\<close>

definition write_to :: "'c respWriter \<Rightarrow> bytes \<Rightarrow> (nat \<times> error option) \<times> 'c respWriter" where
  "write_to rw b =
     (case buf rw of
        None \<Rightarrow>
          (case compressor rw of
             None \<Rightarrow> ((0, Some NilCompressorPanic), rw)
           | Some c \<Rightarrow>
               (case compressor_Write (algo rw) (c, ResponseWriter rw) b of
                  ((n, Some e), (c', tw)) \<Rightarrow>
                    ((n, Some e), rw\<lparr>compressor := Some c', ResponseWriter := tw\<rparr>)
                | ((n, None), (c', tw)) \<Rightarrow>
                    ((n, None),
                     rw\<lparr>compressor := Some c', ResponseWriter := tw,
                        bytesWritten := bytesWritten rw + int n\<rparr>)))
      | Some xs \<Rightarrow>
          ((length b, None),
           rw\<lparr>buf := Some (xs @ b), bytesWritten := bytesWritten rw + int (length b)\<rparr>))"

definition Write :: "'c respWriter \<Rightarrow> bytes \<Rightarrow> (nat \<times> error option) \<times> 'c respWriter" where
  "Write rw b =
     (case swap (map_Header (header_Del ''Content-Length'') rw) b of
        (Some (copied, e), rw') \<Rightarrow> ((copied, Some e), rw')
      | (None, rw') \<Rightarrow> write_to rw' b)"

definition WriteString :: "'c respWriter \<Rightarrow> string \<Rightarrow> (nat \<times> error option) \<times> 'c respWriter" where
  "WriteString rw s = Write rw s"

definition Size :: "'c respWriter \<Rightarrow> int" where
  "Size rw = bytesWritten rw"

definition Written :: "'c respWriter \<Rightarrow> bool" where
  "Written rw = (0 < bytesWritten rw)"

definition GetCompressionApplied :: "'c respWriter \<Rightarrow> bool" where
  "GetCompressionApplied rw = Swapped rw"

definition GetEncoding :: "'c respWriter \<Rightarrow> string" where
  "GetEncoding rw = (if GetCompressionApplied rw then encoding rw else [])"

definition GetOriginalSize :: "'c respWriter \<Rightarrow> int" where
  "GetOriginalSize rw = bytesWritten rw"

definition GetCompressedSize :: "'c respWriter \<Rightarrow> int" where
  "GetCompressedSize rw =
     (if GetCompressionApplied rw then tw_bytesWritten (ResponseWriter rw) else bytesWritten rw)"

definition GetMetricsData :: "'c respWriter \<Rightarrow> MetricsData" where
  "GetMetricsData rw =
     \<lparr>OriginalSize = GetOriginalSize rw,
      CompressedSize = GetCompressedSize rw,
      CompressionApplied = GetCompressionApplied rw,
      EncodingUsed = GetEncoding rw\<rparr>"

text \<open>
  The body of \<^verbatim>\<open>Close\<close> in front of the deferred function: the flush of the buffer
  to the tracker, or the close of the compressor.
\<close>

definition close_body :: "'c respWriter \<Rightarrow> error option \<times> 'c respWriter" where
  "close_body rw =
     (case buf rw of
        Some xs \<Rightarrow>
          (case io_Copy tw_Write (ResponseWriter rw) xs of
             ((n, err), tw, rest) \<Rightarrow> (err, rw\<lparr>ResponseWriter := tw, buf := Some rest\<rparr>))
      | None \<Rightarrow>
          (case compressor rw of
             None \<Rightarrow> (Some NilCompressorPanic, rw)
           | Some c \<Rightarrow>
               (case compressor_Close (algo rw) (c, ResponseWriter rw) of
                  (err, c', tw) \<Rightarrow> (err, rw\<lparr>compressor := Some c', ResponseWriter := tw\<rparr>))))"

text \<open>The deferred function of \<^verbatim>\<open>Close\<close>; it runs on every return, also on a panic.\<close>

definition close_deferred :: "'c respWriter \<Rightarrow> 'c respWriter" where
  "close_deferred rw =
     (let rw1 = (if GetCompressionApplied rw
                 then rw\<lparr>compressedBytesCount := tw_bytesWritten (ResponseWriter rw)\<rparr>
                 else rw)
      in rw1\<lparr>metricsHandler := metricsHandler rw1 @ [GetMetricsData rw1]\<rparr>)"

definition Close :: "'c respWriter \<Rightarrow> error option \<times> 'c respWriter" where
  "Close rw = (case close_body rw of (err, rw') \<Rightarrow> (err, close_deferred rw'))"

definition WriteHeader :: "'c respWriter \<Rightarrow> int \<Rightarrow> 'c respWriter" where
  "WriteHeader rw code =
     (let rw1 = map_Header (header_Del ''Content-Length'') rw in
      rw1\<lparr>ResponseWriter :=
            (ResponseWriter rw1)\<lparr>tw_ResponseWriter :=
              sink_WriteHeader (tw_ResponseWriter (ResponseWriter rw1)) code\<rparr>\<rparr>)"

subsection \<open>One response\<close>

text \<open>
  The application reaches the writer through the three methods \<^verbatim>\<open>respWriter\<close>
  overrides; the middleware then finalizes it with \<^verbatim>\<open>Close\<close>. \<open>handler\<close> runs the
  calls of the application in order and keeps the error each one returned (the
  application is free to ignore it and go on), \<open>respond\<close> is one whole response on a
  new writer.
\<close>

datatype call = CallWrite bytes | CallWriteString string | CallWriteHeader int

fun written :: "call \<Rightarrow> bytes" where
  "written (CallWrite b) = b"
| "written (CallWriteString s) = s"
| "written (CallWriteHeader code) = []"

definition body_of :: "call list \<Rightarrow> bytes" where
  "body_of calls = concat (map written calls)"

fun perform :: "'c respWriter \<Rightarrow> call \<Rightarrow> error option \<times> 'c respWriter" where
  "perform rw (CallWrite b) = (case Write rw b of ((n, err), rw') \<Rightarrow> (err, rw'))"
| "perform rw (CallWriteString s) = (case WriteString rw s of ((n, err), rw') \<Rightarrow> (err, rw'))"
| "perform rw (CallWriteHeader code) = (None, WriteHeader rw code)"

fun handler :: "'c respWriter \<Rightarrow> call list \<Rightarrow> error option list \<times> 'c respWriter" where
  "handler rw [] = ([], rw)"
| "handler rw (c # cs) =
     (case perform rw c of
        (e, rw1) \<Rightarrow> (case handler rw1 cs of (es, rw2) \<Rightarrow> (e # es, rw2)))"

definition respond ::
  "sink \<Rightarrow> int \<Rightarrow> string \<Rightarrow> 'c algorithm \<Rightarrow> call list \<Rightarrow> error option list \<times> 'c respWriter" where
  "respond w swapSize enc a calls =
     (case handler (newResponseWriter w swapSize enc a) calls of
        (es, rw) \<Rightarrow> (case Close rw of (e, rw') \<Rightarrow> (es @ [e], rw')))"

text \<open>The states a response goes through: before each call, before and after \<^verbatim>\<open>Close\<close>.\<close>

fun states :: "'c respWriter \<Rightarrow> call list \<Rightarrow> 'c respWriter list" where
  "states rw [] = [rw, snd (Close rw)]"
| "states rw (c # cs) = rw # states (snd (perform rw c)) cs"

subsection \<open>Notions used in the statements and proofs\<close>

text \<open>\<open>untouched rw rw'\<close>: what a writer that only buffers leaves alone between two states.\<close>

definition untouched :: "'c respWriter \<Rightarrow> 'c respWriter \<Rightarrow> bool" where
  "untouched rw rw' \<longleftrightarrow>
     Header rw' ''Content-Encoding'' = Header rw ''Content-Encoding'' \<and>
     Header rw' ''Vary'' = Header rw ''Vary'' \<and>
     body (tw_ResponseWriter (ResponseWriter rw')) = body (tw_ResponseWriter (ResponseWriter rw)) \<and>
     sent (tw_ResponseWriter (ResponseWriter rw')) = sent (tw_ResponseWriter (ResponseWriter rw)) \<and>
     faults (tw_ResponseWriter (ResponseWriter rw')) = faults (tw_ResponseWriter (ResponseWriter rw)) \<and>
     tw_bytesWritten (ResponseWriter rw') = tw_bytesWritten (ResponseWriter rw) \<and>
     threshold rw' = threshold rw \<and> encoding rw' = encoding rw \<and> algo rw' = algo rw \<and>
     metricsHandler rw' = metricsHandler rw"

text \<open>
  \<open>at_swap rw\<close>: the tracker the new compressor wraps at line 69 of \<^verbatim>\<open>Write\<close>, that
  is the writer's tracker after lines 64, 67 and 68.
\<close>

definition at_swap :: "'c respWriter \<Rightarrow> trackingResponseWriter" where
  "at_swap rw =
     ResponseWriter
       (map_Header (header_Set ''Vary'' ''Accept-Encoding'')
         (map_Header (header_Set ''Content-Encoding'' (encoding rw))
           (map_Header (header_Del ''Content-Length'') rw)))"

text \<open>
  \<open>announces enc h\<close>: the header map \<open>h\<close> announces the encoding \<open>enc\<close>.
  \<open>transmits tw tw'\<close>: between the two states the transport kept its header map, and
  if it sent the headers in between, it sent that map.
\<close>

definition announces :: "string \<Rightarrow> header \<Rightarrow> bool" where
  "announces enc h \<longleftrightarrow>
     h ''Content-Encoding'' = Some [enc] \<and> h ''Vary'' = Some [''Accept-Encoding'']"

definition transmits :: "trackingResponseWriter \<Rightarrow> trackingResponseWriter \<Rightarrow> bool" where
  "transmits tw tw' \<longleftrightarrow>
     header (tw_ResponseWriter tw') = header (tw_ResponseWriter tw) \<and>
     (sent (tw_ResponseWriter tw') = sent (tw_ResponseWriter tw) \<or>
      sent (tw_ResponseWriter tw) = None \<and>
      sent (tw_ResponseWriter tw') = Some (header (tw_ResponseWriter tw)))"

text \<open>
  \<open>announced enc rw\<close>: the writer's encoding is \<open>enc\<close>, a swapped writer has both
  headers in the map, and headers the transport has sent were sent with both.
\<close>

definition announced :: "string \<Rightarrow> 'c respWriter \<Rightarrow> bool" where
  "announced enc rw \<longleftrightarrow>
     encoding rw = enc \<and>
     (Swapped rw \<longrightarrow> announces enc (Header rw)) \<and>
     (\<forall>h. sent (tw_ResponseWriter (ResponseWriter rw)) = Some h \<longrightarrow> announces enc h)"

text \<open>
  A transport is \<open>reliable\<close> when its script refuses no write. \<open>ideal\<close> is what a
  call of the encoder writes and returns when every write is accepted in full.
\<close>

definition reliable :: "sink \<Rightarrow> bool" where
  "reliable s \<longleftrightarrow> list_all (\<lambda>f. f = Accept) (faults s)"

primrec ideal :: "'r encoder_run \<Rightarrow> bytes \<times> 'r" where
  "ideal (Done r) = ([], r)"
| "ideal (Emit x k) = (case ideal (k (length x, None)) of (out, r) \<Rightarrow> (x @ out, r))"

text \<open>
  \<open>stream A c bs\<close> is the output of an encoder in state \<open>c\<close> that is given the
  inputs \<open>bs\<close> one by one and then closed, on a writer that accepts everything;
  \<open>None\<close> when one of these calls returns an error or a count other than the length
  of its input. A decoder \<open>dec\<close>
  makes the codec \<open>lossless\<close> when the encoder takes every input and the decoder
  recovers the concatenated input from the stream, however the input was cut into
  writes: the round-trip contract of a codec library.
\<close>

fun stream :: "'c algorithm \<Rightarrow> 'c \<Rightarrow> bytes list \<Rightarrow> bytes option" where
  "stream A c [] =
     (case ideal (enc_Close A c) of
        (out, (None, c')) \<Rightarrow> Some out
      | (out, (Some e, c')) \<Rightarrow> None)"
| "stream A c (b # bs) =
     (case ideal (enc_Write A c b) of
        (out, ((n, None), c')) \<Rightarrow>
          if n \<noteq> length b then None
          else (case stream A c' bs of None \<Rightarrow> None | Some z \<Rightarrow> Some (out @ z))
      | (out, ((n, Some e), c')) \<Rightarrow> None)"

definition lossless :: "'c algorithm \<Rightarrow> (bytes \<Rightarrow> bytes option) \<Rightarrow> bool" where
  "lossless A dec \<longleftrightarrow>
     (\<forall>bs. \<exists>z. stream A (getWriter A) bs = Some z \<and> dec z = Some (concat bs))"

text \<open>
  \<open>fed A c out bs\<close>: an encoder of \<open>A\<close> that was given the inputs \<open>bs\<close> is in state
  \<open>c\<close> and has written \<open>out\<close>. \<open>streaming rw done\<close>: the writer is swapped, and its
  compressor has been fed the bytes \<open>done\<close> and has written what the transport holds.
  \<open>serving dec rw done\<close>: a writer with a lossless codec on a reliable transport, that
  either holds \<open>done\<close> in its buffer, nothing written yet, or is streaming.
\<close>

definition fed :: "'c algorithm \<Rightarrow> 'c \<Rightarrow> bytes \<Rightarrow> bytes list \<Rightarrow> bool" where
  "fed A c out bs \<longleftrightarrow>
     (\<forall>fut. stream A (getWriter A) (bs @ fut) = map_option ((@) out) (stream A c fut))"

definition streaming :: "'c respWriter \<Rightarrow> bytes \<Rightarrow> bool" where
  "streaming rw done \<longleftrightarrow>
     buf rw = None \<and>
     (\<exists>c bs. compressor rw = Some c \<and> concat bs = done \<and>
        fed (algo rw) c (body (tw_ResponseWriter (ResponseWriter rw))) bs)"

definition serving :: "(bytes \<Rightarrow> bytes option) \<Rightarrow> 'c respWriter \<Rightarrow> bytes \<Rightarrow> bool" where
  "serving dec rw done \<longleftrightarrow>
     reliable (tw_ResponseWriter (ResponseWriter rw)) \<and> lossless (algo rw) dec \<and>
     (buf rw = Some done \<and> body (tw_ResponseWriter (ResponseWriter rw)) = [] \<or> streaming rw done)"

fun is_write :: "call \<Rightarrow> bool" where
  "is_write (CallWrite b) = True"
| "is_write (CallWriteString s) = True"
| "is_write (CallWriteHeader code) = False"

subsection \<open>A codec and a transport for concrete runs\<close>

text \<open>
  \<open>emit_all xs ok fail\<close> writes the chunks \<open>xs\<close> in order, stops at the first write
  that fails and returns \<open>fail\<close> of its error, or \<open>ok\<close> when all were accepted.
  \<open>framing\<close> is a small stream codec in the shape of the real ones: its first write
  emits a one-byte stream header, every write emits its input as one chunk, and
  \<^verbatim>\<open>Close\<close> emits a one-byte trailer. When a write to the wrapped writer fails it
  reports its whole input as consumed. \<open>unframe\<close> is its decoder. \<open>fresh\<close> is a
  transport that has sent nothing and fails as its script says.
\<close>

fun emit_all :: "bytes list \<Rightarrow> 'r \<Rightarrow> (error \<Rightarrow> 'r) \<Rightarrow> 'r encoder_run" where
  "emit_all [] ok fail = Done ok"
| "emit_all (x # xs) ok fail =
     Emit x (\<lambda>res. case snd res of None \<Rightarrow> emit_all xs ok fail | Some e \<Rightarrow> Done (fail e))"

definition framing :: "bool algorithm" where
  "framing =
     \<lparr>getWriter = False,
      enc_Write = (\<lambda>started b.
        emit_all ((if started then [] else [''<'']) @ [b])
          ((length b, None), True) (\<lambda>e. ((length b, Some e), True))),
      enc_Close = (\<lambda>started.
        emit_all ((if started then [] else [''<'']) @ [''>''])
          (None, True) (\<lambda>e. (Some e, True)))\<rparr>"

definition unframe :: "bytes \<Rightarrow> bytes option" where
  "unframe xs =
     (if 2 \<le> length xs \<and> hd xs = CHR ''<'' \<and> last xs = CHR ''>'' then Some (butlast (tl xs))
      else None)"

definition fresh :: "outcome list \<Rightarrow> sink" where
  "fresh fs = \<lparr>header = Map.empty, statuses = [], sent = None, body = [], faults = fs\<rparr>"

section \<open>Negotiation and request decompression\<close>

text \<open>
  The files of the middleware that reads \<^verbatim>\<open>Accept-Encoding\<close> and
  \<^verbatim>\<open>Content-Encoding\<close> (\<^verbatim>\<open>newCompressMiddleware\<close>, its handler and the options)
  are missing. This section models them from sections 3, 4.1, 4.3 and 6 of the
  specification.
\<close>

subsection \<open>Configuration\<close>

text \<open>
  Modelled from the spec: the Algorithm identities of section 3 (the file that declares
  the algorithms is missing): \<open>br\<close>, \<open>gzip\<close>, \<open>deflate\<close>, \<open>zstd\<close>.
\<close>

datatype algo_name = Brotli | Gzip | Deflate | Zstd

fun identity :: "algo_name \<Rightarrow> string" where
  "identity Brotli = ''br''"
| "identity Gzip = ''gzip''"
| "identity Deflate = ''deflate''"
| "identity Zstd = ''zstd''"

definition known :: "string \<Rightarrow> algo_name option" where
  "known n =
     (if n = ''br'' then Some Brotli else if n = ''gzip'' then Some Gzip
      else if n = ''deflate'' then Some Deflate else if n = ''zstd'' then Some Zstd else None)"

text \<open>
  Modelled from the spec: the Configuration of section 3 (the options file is missing).
  The exclusion predicate ranges over the request context, so its value for the request
  at hand is passed to the negotiation; the metrics callback is the writer's.
\<close>

record configuration =
  enabled :: "algo_name \<Rightarrow> bool"
  level :: "algo_name \<Rightarrow> int"
  priority :: "algo_name \<Rightarrow> int"
  minCompressBytes :: int
  maxDecodeSteps :: int
  decompressEnabled :: bool

text \<open>
  Modelled from the spec: the fixed fallback order of section 4.1 step 5: brotli, gzip,
  deflate, zstd.
\<close>

definition algorithms :: "algo_name list" where
  "algorithms = [Brotli, Gzip, Deflate, Zstd]"

fun rank :: "algo_name \<Rightarrow> nat" where
  "rank Brotli = 3"
| "rank Gzip = 2"
| "rank Deflate = 1"
| "rank Zstd = 0"

subsection \<open>Header tokens\<close>

text \<open>
  Modelled from the spec: splitting a header on commas (section 4.1 step 3, section 4.3
  step 2). \<open>split_on\<close> is \<^verbatim>\<open>strings.Split\<close> for a one-byte separator; the blanks
  around a token are dropped, as the header examples of section 8 need.
\<close>

fun split_on :: "char \<Rightarrow> string \<Rightarrow> string list" where
  "split_on d [] = [[]]"
| "split_on d (c # cs) =
     (if c = d then [] # split_on d cs
      else (case split_on d cs of [] \<Rightarrow> [[c]] | w # ws \<Rightarrow> (c # w) # ws))"

definition trim :: "string \<Rightarrow> string" where
  "trim s = rev (dropWhile (\<lambda>c. c = CHR '' '') (rev (dropWhile (\<lambda>c. c = CHR '' '') s)))"

text \<open>
  Modelled from the spec: section 4.1 step 3. A token is \<open>name\<close> or \<open>name;q=value\<close>.
  The float parser is the parameter \<open>pf\<close>; a float is a rational number, so the parsed
  value is a \<open>rat\<close>. \<open>q\<close> is 1 when it is absent or malformed (not parsed, or outside
  \<open>[0, 1]\<close>).
\<close>

definition qvalue :: "(string \<Rightarrow> rat option) \<Rightarrow> string \<Rightarrow> rat" where
  "qvalue pf p =
     (if take 2 p = ''q='' then
        (case pf (drop 2 p) of
           Some v \<Rightarrow> if 0 \<le> v \<and> v \<le> 1 then v else 1
         | None \<Rightarrow> 1)
      else 1)"

definition parse_token :: "(string \<Rightarrow> rat option) \<Rightarrow> string \<Rightarrow> string \<times> rat" where
  "parse_token pf t =
     (case split_on CHR '';'' t of
        n # p # _ \<Rightarrow> (trim n, qvalue pf (trim p))
      | _ \<Rightarrow> (trim t, 1))"

definition tokens :: "(string \<Rightarrow> rat option) \<Rightarrow> string \<Rightarrow> (string \<times> rat) list" where
  "tokens pf h = map (parse_token pf) (split_on CHR '','' h)"

subsection \<open>The negotiation engine\<close>

text \<open>
  Modelled from the spec: section 4.1 step 4. Tokens with \<open>q = 0\<close> and tokens naming a
  disabled or unknown algorithm are discarded; the wildcard stands for every enabled
  algorithm that no token of the header rejects by name (names it with \<open>q = 0\<close>).
\<close>

definition rejected :: "(string \<times> rat) list \<Rightarrow> algo_name \<Rightarrow> bool" where
  "rejected toks a \<longleftrightarrow> (identity a, 0) \<in> set toks"

definition candidates_of :: "configuration \<Rightarrow> (string \<times> rat) list \<Rightarrow> string \<times> rat \<Rightarrow> (algo_name \<times> rat) list" where
  "candidates_of cfg toks t =
     (if snd t = 0 then []
      else if fst t = ''*'' then
        map (\<lambda>a. (a, snd t)) (filter (\<lambda>a. enabled cfg a \<and> \<not> rejected toks a) algorithms)
      else
        (case known (fst t) of
           Some a \<Rightarrow> if enabled cfg a then [(a, snd t)] else []
         | None \<Rightarrow> []))"

definition candidates :: "configuration \<Rightarrow> (string \<times> rat) list \<Rightarrow> (algo_name \<times> rat) list" where
  "candidates cfg toks = concat (map (candidates_of cfg toks) toks)"

text \<open>
  Modelled from the spec: section 4.1 step 5. \<open>precedes cfg x y\<close>: the key of \<open>x\<close>
  (\<open>q\<close>, then priority, then the fallback order) is at least the key of \<open>y\<close>.
  \<open>keep_best\<close> keeps the maximum while it goes through the candidates.
\<close>

definition precedes :: "configuration \<Rightarrow> algo_name \<times> rat \<Rightarrow> algo_name \<times> rat \<Rightarrow> bool" where
  "precedes cfg x y \<longleftrightarrow>
     snd y < snd x \<or>
     (snd y = snd x \<and>
       (priority cfg (fst y) < priority cfg (fst x) \<or>
        (priority cfg (fst y) = priority cfg (fst x) \<and> rank (fst y) \<le> rank (fst x))))"

fun keep_best :: "configuration \<Rightarrow> algo_name \<times> rat \<Rightarrow> (algo_name \<times> rat) list \<Rightarrow> algo_name \<times> rat" where
  "keep_best cfg best [] = best"
| "keep_best cfg best (c # cs) = keep_best cfg (if precedes cfg best c then best else c) cs"

definition select :: "configuration \<Rightarrow> (algo_name \<times> rat) list \<Rightarrow> algo_name option" where
  "select cfg cs = (case cs of [] \<Rightarrow> None | c # cs' \<Rightarrow> Some (fst (keep_best cfg c cs')))"

text \<open>
  Modelled from the spec: the negotiation engine of section 4.1, steps 1 to 5.
  \<open>excluded\<close> says that an exclusion predicate is configured and holds for the
  request; \<open>hdr\<close> is the \<^verbatim>\<open>Accept-Encoding\<close> value, \<open>None\<close> when absent.
\<close>

definition negotiate ::
  "(string \<Rightarrow> rat option) \<Rightarrow> configuration \<Rightarrow> bool \<Rightarrow> string option \<Rightarrow> algo_name option" where
  "negotiate pf cfg excluded hdr =
     (if excluded then None
      else
        (case hdr of
           None \<Rightarrow> None
         | Some h \<Rightarrow> if h = [] then None else select cfg (candidates cfg (tokens pf h))))"

text \<open>
  The declarative side of the claim: the header admits algorithm \<open>a\<close> with weight
  \<open>q\<close> when \<open>a\<close> is enabled, \<open>q\<close> is positive and a token names \<open>a\<close> with \<open>q\<close>,
  or the wildcard carries \<open>q\<close> and no token rejects \<open>a\<close>.
\<close>

definition admits :: "configuration \<Rightarrow> (string \<times> rat) list \<Rightarrow> algo_name \<Rightarrow> rat \<Rightarrow> bool" where
  "admits cfg toks a q \<longleftrightarrow>
     enabled cfg a \<and> 0 < q \<and>
     ((identity a, q) \<in> set toks \<or> ((''*'', q) \<in> set toks \<and> (identity a, 0) \<notin> set toks))"

subsection \<open>The decompression pipeline\<close>

text \<open>
  Modelled from the spec: the decompression pipeline of section 4.3. The result is the
  list of decoder stages wrapped around the body reader, or the rejection of the
  request. Steps 3 and 4: the first \<open>maxDecodeSteps\<close> tokens are applied, an unknown or
  disabled one rejects the request, and so do tokens left unapplied.
\<close>

datatype decoded = Reject | Wrap "algo_name list"

definition supported :: "configuration \<Rightarrow> string \<Rightarrow> bool" where
  "supported cfg t = (case known t of Some a \<Rightarrow> enabled cfg a | None \<Rightarrow> False)"

fun stages :: "configuration \<Rightarrow> string list \<Rightarrow> algo_name list option" where
  "stages cfg [] = Some []"
| "stages cfg (t # ts) =
     (case known t of
        None \<Rightarrow> None
      | Some a \<Rightarrow>
          if enabled cfg a then (case stages cfg ts of None \<Rightarrow> None | Some ds \<Rightarrow> Some (a # ds))
          else None)"

definition encodings :: "string \<Rightarrow> string list" where
  "encodings h = map trim (split_on CHR '','' h)"

definition decompress :: "configuration \<Rightarrow> string option \<Rightarrow> decoded" where
  "decompress cfg hdr =
     (if \<not> decompressEnabled cfg then Wrap []
      else
        (case hdr of
           None \<Rightarrow> Wrap []
         | Some h \<Rightarrow>
             (case stages cfg (take (nat (maxDecodeSteps cfg)) (encodings h)) of
                None \<Rightarrow> Reject
              | Some ds \<Rightarrow>
                  if maxDecodeSteps cfg < int (length (encodings h)) then Reject else Wrap ds)))"

text \<open>
  Modelled from the spec: the defaults of section 6 (all algorithms enabled, priorities
  in the fallback order, threshold 512, one decode step, decompression on). \<open>tenths\<close>
  is a float parser for the q-values of the examples.
\<close>

definition defaults :: configuration where
  "defaults =
     \<lparr>enabled = (\<lambda>a. True), level = (\<lambda>a. 0), priority = (\<lambda>a. int (rank a)),
      minCompressBytes = 512, maxDecodeSteps = 1, decompressEnabled = True\<rparr>"

definition tenths :: "string \<Rightarrow> rat option" where
  "tenths s =
     (if s = ''0'' then Some 0 else if s = ''1'' then Some 1
      else if s = ''0.3'' then Some (3 / 10) else if s = ''0.5'' then Some (5 / 10)
      else if s = ''0.7'' then Some (7 / 10) else None)"

section \<open>Properties of the response writer\<close>

text \<open>The definitions a concrete run is evaluated with.\<close>

lemma getWriter_framing: "getWriter framing = False"
  by (simp add: framing_def)

lemmas eval_defs = Write_def swap_def write_to_def io_Copy_def compressor_Write_def compressor_Close_def
  tw_Write_def sink_Write_def map_Header_def Header_def header_Set_def header_Del_def
  newResponseWriter_def newTrackingResponseWriter_def framing_def fresh_def Let_def
  Close_def close_body_def close_deferred_def GetMetricsData_def GetCompressionApplied_def
  GetEncoding_def GetOriginalSize_def GetCompressedSize_def Swapped_def WriteHeader_def sink_WriteHeader_def
  WriteString_def respond_def

subsection \<open>What the operations leave of the header map\<close>

lemma sink_Write_header:
  "sink_Write s b = (r, s') \<Longrightarrow> header s' = header s"
  by (auto simp: sink_Write_def Let_def split: option.splits list.splits outcome.splits)

lemma tw_Write_header:
  "tw_Write tw b = (r, tw') \<Longrightarrow> header (tw_ResponseWriter tw') = header (tw_ResponseWriter tw)"
  by (auto simp: tw_Write_def split: prod.splits dest: sink_Write_header)

lemma drive_header:
  "drive p tw = (r, tw') \<Longrightarrow> header (tw_ResponseWriter tw') = header (tw_ResponseWriter tw)"
proof (induction p arbitrary: tw)
  case (Done x)
  then show ?case by simp
next
  case (Emit x k)
  obtain res tw1 where w: "tw_Write tw x = (res, tw1)" by (metis prod.exhaust)
  then have "drive (k res) tw1 = (r, tw')" using Emit.prems by simp
  from Emit.IH [OF _ this] tw_Write_header [OF w] show ?case by (simp add: range_eqI)
qed

lemma compressor_Write_header:
  "compressor_Write A (c, tw) b = (r, c', tw') \<Longrightarrow>
     header (tw_ResponseWriter tw') = header (tw_ResponseWriter tw)"
  by (auto simp: compressor_Write_def split: prod.splits dest: drive_header)

lemma compressor_Close_header:
  "compressor_Close A (c, tw) = (r, c', tw') \<Longrightarrow>
     header (tw_ResponseWriter tw') = header (tw_ResponseWriter tw)"
  by (auto simp: compressor_Close_def split: prod.splits dest: drive_header)

lemma io_Copy_compressor_header:
  "io_Copy (compressor_Write A) (c, tw) xs = (r, (c', tw'), rest) \<Longrightarrow>
     header (tw_ResponseWriter tw') = header (tw_ResponseWriter tw)"
  by (auto simp: io_Copy_def split: if_splits prod.splits option.splits dest: compressor_Write_header)

lemma io_Copy_tracker_header:
  "io_Copy tw_Write tw xs = (r, tw', rest) \<Longrightarrow>
     header (tw_ResponseWriter tw') = header (tw_ResponseWriter tw)"
  by (auto simp: io_Copy_def split: if_splits prod.splits option.splits dest: tw_Write_header)

lemma Header_map_Header [simp]: "Header (map_Header f rw) = f (Header rw)"
  by (simp add: Header_def map_Header_def)

lemma Header_write_to:
  "write_to rw b = (r, rw') \<Longrightarrow> Header rw' = Header rw"
  by (auto simp: write_to_def Header_def split: option.splits prod.splits dest: compressor_Write_header)

lemma Header_swap:
  "swap rw b = (r, rw') \<Longrightarrow>
     Header rw' = Header rw \<or>
     Header rw' = header_Set ''Vary'' ''Accept-Encoding'' (header_Set ''Content-Encoding'' (encoding rw) (Header rw))"
  apply (auto simp: swap_def Let_def  split: option.splits if_splits prod.splits dest!: io_Copy_compressor_header)
   apply (simp_all add: Header_def map_Header_def)
  done

lemma Header_Write_Content_Length:
  "Header (snd (Write rw b)) ''Content-Length'' = None"
proof -
  let ?rw1 = "map_Header (header_Del ''Content-Length'') rw"
  obtain r rw2 where s: "swap ?rw1 b = (r, rw2)" by (metis prod.exhaust)
  have h1: "Header ?rw1 ''Content-Length'' = None" by (simp add: header_Del_def)
  have h2: "Header rw2 ''Content-Length'' = None"
    using Header_swap [OF s] h1 by (auto simp: header_Set_def)
  show ?thesis
  proof (cases r)
    case None
    obtain r3 rw3 where w: "write_to rw2 b = (r3, rw3)" by (metis prod.exhaust)
    have "Write rw b = (r3, rw3)" using s None w by (simp add: Write_def)
    then show ?thesis using Header_write_to [OF w] h2 by simp
  next
    case (Some ce)
    then have "snd (Write rw b) = rw2" using s by (simp add: Write_def split: prod.splits)
    then show ?thesis using h2 by simp
  qed
qed

lemma Header_WriteHeader_Content_Length:
  "Header (WriteHeader rw code) ''Content-Length'' = None"
  by (simp add: WriteHeader_def Header_def map_Header_def header_Del_def sink_WriteHeader_def Let_def)

subsection \<open>The original size counts successful writes only\<close>

lemma bytesWritten_map_Header [simp]: "bytesWritten (map_Header f rw) = bytesWritten rw"
  by (simp add: map_Header_def)

lemma buf_map_Header [simp]: "buf (map_Header f rw) = buf rw"
  by (simp add: map_Header_def)

lemma compressor_map_Header [simp]: "compressor (map_Header f rw) = compressor rw"
  by (simp add: map_Header_def)

lemma algo_map_Header [simp]: "algo (map_Header f rw) = algo rw"
  by (simp add: map_Header_def)

lemma threshold_map_Header [simp]: "threshold (map_Header f rw) = threshold rw"
  by (simp add: map_Header_def)

lemma encoding_map_Header [simp]: "encoding (map_Header f rw) = encoding rw"
  by (simp add: map_Header_def)

lemma metricsHandler_map_Header [simp]: "metricsHandler (map_Header f rw) = metricsHandler rw"
  by (simp add: map_Header_def)

lemma swap_bytesWritten:
  "swap rw b = (r, rw') \<Longrightarrow> bytesWritten rw' = bytesWritten rw"
  by (auto simp: swap_def Let_def split: option.splits if_splits prod.splits)

lemma write_to_bytesWritten:
  "write_to rw b = ((n, err), rw') \<Longrightarrow>
     bytesWritten rw' = (if err = None then bytesWritten rw + int n else bytesWritten rw)"
  by (auto simp: write_to_def split: option.splits prod.splits)

lemma Write_bytesWritten:
  assumes "Write rw b = ((n, err), rw')"
  shows "bytesWritten rw' = (if err = None then bytesWritten rw + int n else bytesWritten rw)"
proof -
  let ?rw1 = "map_Header (header_Del ''Content-Length'') rw"
  obtain r rw2 where s: "swap ?rw1 b = (r, rw2)" by (metis prod.exhaust)
  have b2: "bytesWritten rw2 = bytesWritten rw" using swap_bytesWritten [OF s] by simp
  show ?thesis
  proof (cases r)
    case None
    then have "write_to rw2 b = ((n, err), rw')" using assms s by (simp add: Write_def)
    from write_to_bytesWritten [OF this] b2 show ?thesis by simp
  next
    case (Some ce)
    then have "err \<noteq> None" "rw' = rw2" using assms s by (auto simp: Write_def split: prod.splits)
    then show ?thesis using b2 by auto
  qed
qed

lemma Write_streaming:
  assumes "buf rw = None" and "compressor rw = Some c"
  shows "Write rw b =
    (case compressor_Write (algo rw) (c, ResponseWriter (map_Header (header_Del ''Content-Length'') rw)) b of
       ((n, Some e), (c', tw)) \<Rightarrow>
          ((n, Some e), (map_Header (header_Del ''Content-Length'') rw)\<lparr>compressor := Some c', ResponseWriter := tw\<rparr>)
     | ((n, None), (c', tw)) \<Rightarrow>
          ((n, None), (map_Header (header_Del ''Content-Length'') rw)\<lparr>compressor := Some c', ResponseWriter := tw,
                bytesWritten := bytesWritten rw + int n\<rparr>))"
  using assms by (simp add: Write_def swap_def write_to_def)


text \<open>
  Claim C10. A \<^verbatim>\<open>Write\<close> that returns an error leaves \<open>bytesWritten\<close> (the original
  size) as it was, whatever count comes with the error; a \<^verbatim>\<open>Write\<close> that returns no
  error adds the count it returns. When the compressor's \<^verbatim>\<open>Write\<close> returns a count
  and an error, \<^verbatim>\<open>Write\<close> returns that count and that error and leaves the original
  size as it was: in a writer that is already swapped, in the call that swaps (after the
  buffer \<open>xs\<close> was copied without error), and when the compressor fails on the
  buffered bytes themselves (with a count within the buffer; a larger one makes
  \<^verbatim>\<open>bytes.Buffer.WriteTo\<close> panic). The other destination, \<^verbatim>\<open>bytes.Buffer\<close>, takes
  all of \<open>b\<close> and returns no error.
\<close>

theorem Write_error_keeps_bytesWritten:
  "(\<forall>n e rw'. Write rw b = ((n, Some e), rw') \<longrightarrow> bytesWritten rw' = bytesWritten rw) \<and>
   (\<forall>n rw'. Write rw b = ((n, None), rw') \<longrightarrow> bytesWritten rw' = bytesWritten rw + int n) \<and>
   (\<forall>c n e ct. buf rw = None \<and> compressor rw = Some c \<and>
      compressor_Write (algo rw) (c, ResponseWriter (map_Header (header_Del ''Content-Length'') rw)) b
        = ((n, Some e), ct) \<longrightarrow>
      fst (Write rw b) = (n, Some e) \<and> bytesWritten (snd (Write rw b)) = bytesWritten rw) \<and>
   (\<forall>xs m c1 tw1 rest n e ct.
      buf rw = Some xs \<and> threshold rw \<le> int (length xs) + int (length b) \<and>
      io_Copy (compressor_Write (algo rw)) (getWriter (algo rw), at_swap rw) xs
        = ((m, None), (c1, tw1), rest) \<and>
      compressor_Write (algo rw) (c1, tw1) b = ((n, Some e), ct) \<longrightarrow>
      fst (Write rw b) = (n, Some e) \<and> bytesWritten (snd (Write rw b)) = bytesWritten rw) \<and>
   (\<forall>xs m e ct.
      buf rw = Some xs \<and> xs \<noteq> [] \<and> threshold rw \<le> int (length xs) + int (length b) \<and>
      compressor_Write (algo rw) (getWriter (algo rw), at_swap rw) xs = ((m, Some e), ct) \<and>
      m \<le> length xs \<longrightarrow>
      fst (Write rw b) = (m, Some e) \<and> bytesWritten (snd (Write rw b)) = bytesWritten rw) \<and>
   (\<forall>xs. buf rw = Some xs \<and> int (length xs) + int (length b) < threshold rw \<longrightarrow>
      fst (Write rw b) = (length b, None))"
proof (intro conjI allI impI)
  fix n e rw'
  assume "Write rw b = ((n, Some e), rw')"
  from Write_bytesWritten [OF this] show "bytesWritten rw' = bytesWritten rw" by simp
next
  fix n rw'
  assume w: "Write rw b = ((n, None), rw')"
  from Write_bytesWritten [OF w] show "bytesWritten rw' = bytesWritten rw + int n" by simp
next
  fix c n e ct
  assume a: "buf rw = None \<and> compressor rw = Some c \<and>
      compressor_Write (algo rw) (c, ResponseWriter (map_Header (header_Del ''Content-Length'') rw)) b
        = ((n, Some e), ct)"
  then have w: "fst (Write rw b) = (n, Some e)"
    using Write_streaming [of rw c b] by (cases ct) simp
  then show "fst (Write rw b) = (n, Some e)" .
  from w have "Write rw b = ((n, Some e), snd (Write rw b))" by (metis prod.collapse)
  from Write_bytesWritten [OF this] show "bytesWritten (snd (Write rw b)) = bytesWritten rw" by simp
next
  fix xs m c1 tw1 rest n e ct
  assume a: "buf rw = Some xs \<and> threshold rw \<le> int (length xs) + int (length b) \<and>
      io_Copy (compressor_Write (algo rw)) (getWriter (algo rw), at_swap rw) xs
        = ((m, None), (c1, tw1), rest) \<and>
      compressor_Write (algo rw) (c1, tw1) b = ((n, Some e), ct)"
  then have w: "fst (Write rw b) = (n, Some e)"
    by (cases ct) (simp add: Write_def swap_def write_to_def at_swap_def Let_def)
  then show "fst (Write rw b) = (n, Some e)" .
  from w have "Write rw b = ((n, Some e), snd (Write rw b))" by (metis prod.collapse)
  from Write_bytesWritten [OF this] show "bytesWritten (snd (Write rw b)) = bytesWritten rw" by simp
next
  fix xs m e ct
  assume a: "buf rw = Some xs \<and> xs \<noteq> [] \<and> threshold rw \<le> int (length xs) + int (length b) \<and>
      compressor_Write (algo rw) (getWriter (algo rw), at_swap rw) xs = ((m, Some e), ct) \<and>
      m \<le> length xs"
  then have w: "fst (Write rw b) = (m, Some e)"
    by (cases ct) (simp add: Write_def swap_def io_Copy_def at_swap_def Let_def)
  then show "fst (Write rw b) = (m, Some e)" .
  from w have "Write rw b = ((m, Some e), snd (Write rw b))" by (metis prod.collapse)
  from Write_bytesWritten [OF this] show "bytesWritten (snd (Write rw b)) = bytesWritten rw" by simp
next
  fix xs
  assume "buf rw = Some xs \<and> int (length xs) + int (length b) < threshold rw"
  then show "fst (Write rw b) = (length b, None)"
    by (simp add: Write_def swap_def write_to_def)
qed

text \<open>
  The witness. On the first transport a new writer with threshold 2 is given
  \<open>''hello''\<close>: the call swaps, the transport takes the stream header and refuses the
  data after three bytes, the compressor reports 5 bytes with the error, and so does
  \<^verbatim>\<open>Write\<close>; the original size stays 0. On the second transport, under threshold 4,
  \<open>''ab''\<close> is buffered and counted; the write of \<open>''cd''\<close> swaps, the compressor
  fails on the buffered bytes and reports 2 with the error, and so does \<^verbatim>\<open>Write\<close>;
  the original size stays 2.
\<close>

theorem Write_error_keeps_bytesWritten_witness:
  "fst (compressor_Write framing (False, at_swap (newResponseWriter (fresh [Accept, Refuse 3 ''reset'']) 2 ''gzip'' framing)) ''hello'')
     = (5, Some (TransportError ''reset'')) \<and>
   fst (Write (newResponseWriter (fresh [Accept, Refuse 3 ''reset'']) 2 ''gzip'' framing) ''hello'')
     = (5, Some (TransportError ''reset'')) \<and>
   bytesWritten (snd (Write (newResponseWriter (fresh [Accept, Refuse 3 ''reset'']) 2 ''gzip'' framing) ''hello''))
     = 0 \<and>
   fst (Write (newResponseWriter (fresh [Refuse 1 ''broken pipe'']) 4 ''gzip'' framing) ''ab'')
     = (2, None) \<and>
   bytesWritten (snd (Write (newResponseWriter (fresh [Refuse 1 ''broken pipe'']) 4 ''gzip'' framing) ''ab''))
     = 2 \<and>
   buf (snd (Write (newResponseWriter (fresh [Refuse 1 ''broken pipe'']) 4 ''gzip'' framing) ''ab''))
     = Some ''ab'' \<and>
   fst (compressor_Write framing (False, at_swap (snd (Write (newResponseWriter (fresh [Refuse 1 ''broken pipe'']) 4 ''gzip'' framing) ''ab''))) ''ab'')
     = (2, Some (TransportError ''broken pipe'')) \<and>
   fst (Write (snd (Write (newResponseWriter (fresh [Refuse 1 ''broken pipe'']) 4 ''gzip'' framing) ''ab'')) ''cd'')
     = (2, Some (TransportError ''broken pipe'')) \<and>
   bytesWritten (snd (Write (snd (Write (newResponseWriter (fresh [Refuse 1 ''broken pipe'']) 4 ''gzip'' framing) ''ab'')) ''cd''))
     = 2"
proof -
  let ?n1 = "newResponseWriter (fresh [Accept, Refuse 3 ''reset'']) 2 ''gzip'' framing"
  let ?n2 = "newResponseWriter (fresh [Refuse 1 ''broken pipe'']) 4 ''gzip'' framing"
  let ?rw2 = "snd (Write ?n2 ''ab'')"
  have a1: "algo ?n1 = framing" and b1: "bytesWritten ?n1 = 0"
    by (simp_all add: newResponseWriter_def)
  have c1: "fst (compressor_Write framing (False, at_swap ?n1) ''hello'') = (5, Some (TransportError ''reset''))"
    by (simp add: eval_defs at_swap_def)
  then obtain ct1 where cw1: "compressor_Write (algo ?n1) (False, at_swap ?n1) ''hello''
      = ((5, Some (TransportError ''reset'')), ct1)"
    unfolding a1 by (metis prod.collapse)
  have h1: "buf ?n1 = Some []" "threshold ?n1 \<le> int (length ([] :: bytes)) + int (length ''hello'')"
    "io_Copy (compressor_Write (algo ?n1)) (getWriter (algo ?n1), at_swap ?n1) []
       = ((0, None), (False, at_swap ?n1), [])"
    by (simp_all add: newResponseWriter_def io_Copy_def getWriter_framing)
  from Write_error_keeps_bytesWritten [of ?n1 "''hello''",
      THEN conjunct2, THEN conjunct2, THEN conjunct2, THEN conjunct1, rule_format,
      OF conjI [OF h1(1) conjI [OF h1(2) conjI [OF h1(3) cw1]]]] b1
  have r1: "fst (Write ?n1 ''hello'') = (5, Some (TransportError ''reset''))"
    "bytesWritten (snd (Write ?n1 ''hello'')) = 0" by simp_all
  have b0: "bytesWritten ?n2 = 0" and h2: "buf ?n2 = Some []"
    "int (length ([] :: bytes)) + int (length ''ab'') < threshold ?n2"
    by (simp_all add: newResponseWriter_def)
  from Write_error_keeps_bytesWritten [of ?n2 "''ab''",
      THEN conjunct2, THEN conjunct2, THEN conjunct2, THEN conjunct2, THEN conjunct2, rule_format,
      OF conjI [OF h2]]
  have f2: "fst (Write ?n2 ''ab'') = (2, None)" by simp
  then have w2: "Write ?n2 ''ab'' = ((2, None), ?rw2)" by (metis prod.collapse)
  from Write_error_keeps_bytesWritten [of ?n2 "''ab''", THEN conjunct2, THEN conjunct1, rule_format, OF w2] b0
  have b2: "bytesWritten ?rw2 = 2" by simp
  have s2: "buf ?rw2 = Some ''ab''" "algo ?rw2 = framing" "threshold ?rw2 = 4"
    by (simp_all add: eval_defs)
  have c2: "fst (compressor_Write framing (False, at_swap ?rw2) ''ab'') = (2, Some (TransportError ''broken pipe''))"
    by (simp add: eval_defs at_swap_def)
  then obtain ct2 where cw2: "compressor_Write (algo ?rw2) (getWriter (algo ?rw2), at_swap ?rw2) ''ab''
      = ((2, Some (TransportError ''broken pipe'')), ct2)"
    unfolding s2(2) getWriter_framing by (metis prod.collapse)
  have h3: "''ab'' \<noteq> []" "threshold ?rw2 \<le> int (length ''ab'') + int (length ''cd'')"
    "(2::nat) \<le> length ''ab''"
    unfolding s2(3) by simp_all
  from Write_error_keeps_bytesWritten [of ?rw2 "''cd''",
      THEN conjunct2, THEN conjunct2, THEN conjunct2, THEN conjunct2, THEN conjunct1, rule_format,
      OF conjI [OF s2(1) conjI [OF h3(1) conjI [OF h3(2) conjI [OF cw2 h3(3)]]]]] b2
  have r3: "fst (Write ?rw2 ''cd'') = (2, Some (TransportError ''broken pipe''))"
    "bytesWritten (snd (Write ?rw2 ''cd'')) = 2" by simp_all
  show ?thesis using c1 r1 f2 b2 s2(1) c2 r3 by blast
qed

subsection \<open>The swap happens once\<close>

lemma swap_Swapped:
  "Swapped rw \<Longrightarrow> swap rw b = (None, rw)"
  by (simp add: swap_def Swapped_def)

lemma write_to_buf:
  "write_to rw b = (r, rw') \<Longrightarrow> (buf rw' = None) = (buf rw = None)"
  by (auto simp: write_to_def split: option.splits prod.splits)

lemma Write_Swapped:
  "Swapped rw \<Longrightarrow> Swapped (snd (Write rw b))"
proof -
  assume s: "Swapped rw"
  let ?rw1 = "map_Header (header_Del ''Content-Length'') rw"
  have s1: "Swapped ?rw1" using s by (simp add: Swapped_def)
  obtain r rw' where w: "write_to ?rw1 b = (r, rw')" by (metis prod.exhaust)
  have "Write rw b = (r, rw')" using swap_Swapped [OF s1, of b] w by (simp add: Write_def)
  then show ?thesis using write_to_buf [OF w] s1 by (simp add: Swapped_def)
qed

lemma WriteHeader_buf [simp]: "buf (WriteHeader rw code) = buf rw"
  by (simp add: WriteHeader_def Let_def)

lemma close_body_buf:
  "close_body rw = (err, rw') \<Longrightarrow> (buf rw' = None) = (buf rw = None)"
  by (auto simp: close_body_def split: option.splits prod.splits)

lemma close_deferred_buf [simp]: "buf (close_deferred rw) = buf rw"
  by (simp add: close_deferred_def Let_def)

lemma Close_Swapped: "Swapped (snd (Close rw)) = Swapped rw"
proof -
  obtain err rw' where c: "close_body rw = (err, rw')" by (metis prod.exhaust)
  then have "snd (Close rw) = close_deferred rw'" by (simp add: Close_def)
  then show ?thesis using close_body_buf [OF c] by (simp add: Swapped_def)
qed

lemma snd_perform:
  "snd (perform rw c) =
     (case c of CallWrite b \<Rightarrow> snd (Write rw b) | CallWriteString s \<Rightarrow> snd (Write rw s)
      | CallWriteHeader code \<Rightarrow> WriteHeader rw code)"
  by (cases c) (simp_all add: WriteString_def split: prod.splits)

lemma perform_Swapped:
  assumes "Swapped rw"
  shows "Swapped (snd (perform rw c))"
proof -
  have "Swapped (WriteHeader rw code)" for code
    using assms by (simp add: Swapped_def)
  then show ?thesis
    unfolding snd_perform using Write_Swapped [OF assms] by (simp split: call.splits)
qed

lemma Swapped_states:
  "Swapped rw \<Longrightarrow> \<forall>s \<in> set (states rw calls). Swapped s"
proof (induction calls arbitrary: rw)
  case Nil
  then show ?case by (simp add: Close_Swapped)
next
  case (Cons c cs)
  from Cons.IH [OF perform_Swapped [OF Cons.prems, of c]] Cons.prems
  show ?case by simp
qed

lemma sorted_Swapped_states:
  "sorted (map Swapped (states rw calls))"
proof (induction calls arbitrary: rw)
  case Nil
  show ?case by (simp add: Close_Swapped)
next
  case (Cons c cs)
  show ?case
  proof (cases "Swapped rw")
    case True
    from Swapped_states [OF perform_Swapped [OF True, of c], of cs] Cons.IH [of "snd (perform rw c)"]
    show ?thesis by simp
  next
    case False
    then show ?thesis using Cons.IH [of "snd (perform rw c)"] by simp
  qed
qed

lemma Write_swaps_at_threshold:
  assumes "buf rw = Some xs" and "Swapped (snd (Write rw b))"
  shows "threshold rw \<le> int (length xs) + int (length b)"
proof (rule ccontr)
  assume "\<not> threshold rw \<le> int (length xs) + int (length b)"
  then have "snd (Write rw b) =
    (map_Header (header_Del ''Content-Length'') rw)\<lparr>buf := Some (xs @ b), bytesWritten := bytesWritten rw + int (length b)\<rparr>"
    using assms(1) by (simp add: Write_def swap_def write_to_def)
  then show False using assms(2) by (simp add: Swapped_def)
qed

text \<open>
  Claim C8. A new writer is not swapped; along the states of a response, from any
  state on, the flag \<open>Swapped\<close> is sorted (\<open>False\<close> before \<open>True\<close>), so it turns
  true at most once and never turns false; \<^verbatim>\<open>WriteHeader\<close> and \<^verbatim>\<open>Close\<close> leave it as
  it is; and a \<^verbatim>\<open>Write\<close> turns it true only when the buffered bytes and the
  new ones reach the threshold.
\<close>

theorem Swapped_monotonic:
  "\<not> Swapped (newResponseWriter w swapSize enc a) \<and>
   sorted (map Swapped (states rw calls)) \<and>
   Swapped (WriteHeader rw code) = Swapped rw \<and>
   Swapped (snd (Close rw)) = Swapped rw \<and>
   (\<forall>xs. buf rw = Some xs \<and> Swapped (snd (Write rw b)) \<longrightarrow>
      threshold rw \<le> int (length xs) + int (length b))"
  using sorted_Swapped_states [of rw calls] Close_Swapped [of rw] Write_swaps_at_threshold [of rw _ b]
  by (simp add: Swapped_def newResponseWriter_def)

text \<open>
  The witness: with threshold 4 the second two-byte write swaps; the flags of the
  response are \<open>False\<close> three times and \<open>True\<close> from then on.
\<close>

theorem Swapped_monotonic_witness:
  "buf (snd (Write (newResponseWriter (fresh []) 4 ''gzip'' framing) ''ab'')) = Some ''ab'' \<and>
   Swapped (snd (Write (snd (Write (newResponseWriter (fresh []) 4 ''gzip'' framing) ''ab'')) ''cd'')) \<and>
   threshold (snd (Write (newResponseWriter (fresh []) 4 ''gzip'' framing) ''ab'')) \<le> int (length ''ab'') + int (length ''cd'') \<and>
   map Swapped (states (newResponseWriter (fresh []) 4 ''gzip'' framing)
       [CallWriteHeader 200, CallWrite ''ab'', CallWrite ''cd'', CallWriteString ''ef''])
     = [False, False, False, True, True, True] \<and>
   sorted (map Swapped (states (newResponseWriter (fresh []) 4 ''gzip'' framing)
       [CallWriteHeader 200, CallWrite ''ab'', CallWrite ''cd'', CallWriteString ''ef'']))"
proof -
  let ?rw = "snd (Write (newResponseWriter (fresh []) 4 ''gzip'' framing) ''ab'')"
  have b: "buf ?rw = Some ''ab''" by (simp add: eval_defs)
  have s: "Swapped (snd (Write ?rw ''cd''))" by (simp add: eval_defs)
  have m: "map Swapped (states (newResponseWriter (fresh []) 4 ''gzip'' framing)
       [CallWriteHeader 200, CallWrite ''ab'', CallWrite ''cd'', CallWriteString ''ef''])
     = [False, False, False, True, True, True]"
    by (simp add: eval_defs)
  from Swapped_monotonic [of "fresh []" 4 "''gzip''" framing "newResponseWriter (fresh []) 4 ''gzip'' framing"
      "[CallWriteHeader 200, CallWrite ''ab'', CallWrite ''cd'', CallWriteString ''ef'']" 200 "''x''"]
    Swapped_monotonic [of "fresh []" 4 "''gzip''" framing ?rw "[]" 200 "''cd''"] b s m
  show ?thesis by simp
qed

subsection \<open>The metrics report\<close>

lemma swap_metricsHandler:
  "swap rw b = (r, rw') \<Longrightarrow> metricsHandler rw' = metricsHandler rw"
  by (auto simp: swap_def Let_def split: option.splits if_splits prod.splits)

lemma write_to_metricsHandler:
  "write_to rw b = (r, rw') \<Longrightarrow> metricsHandler rw' = metricsHandler rw"
  by (auto simp: write_to_def split: option.splits prod.splits)

lemma Write_metricsHandler: "metricsHandler (snd (Write rw b)) = metricsHandler rw"
proof -
  let ?rw1 = "map_Header (header_Del ''Content-Length'') rw"
  obtain r rw2 where s: "swap ?rw1 b = (r, rw2)" by (metis prod.exhaust)
  obtain r3 rw3 where w: "write_to rw2 b = (r3, rw3)" by (metis prod.exhaust)
  have "snd (Write rw b) = (case r of None \<Rightarrow> rw3 | Some ce \<Rightarrow> rw2)"
    using s w by (simp add: Write_def split: option.splits prod.splits)
  then show ?thesis
    using swap_metricsHandler [OF s] write_to_metricsHandler [OF w] by (simp split: option.splits)
qed

lemma WriteHeader_metricsHandler [simp]: "metricsHandler (WriteHeader rw code) = metricsHandler rw"
  by (simp add: WriteHeader_def Let_def)

lemma perform_metricsHandler: "metricsHandler (snd (perform rw c)) = metricsHandler rw"
  unfolding snd_perform by (simp add: Write_metricsHandler split: call.splits)

lemma handler_metricsHandler:
  "metricsHandler (snd (handler rw calls)) = metricsHandler rw"
proof (induction calls arbitrary: rw)
  case Nil
  show ?case by simp
next
  case (Cons c cs)
  have "snd (handler rw (c # cs)) = snd (handler (snd (perform rw c)) cs)"
    by (simp split: prod.splits)
  then show ?case using Cons.IH [of "snd (perform rw c)"] by (simp add: perform_metricsHandler)
qed

lemma GetMetricsData_close_deferred:
  "GetMetricsData (close_deferred rw) = GetMetricsData rw"
  by (simp add: close_deferred_def GetMetricsData_def GetOriginalSize_def GetCompressedSize_def
      GetCompressionApplied_def GetEncoding_def Swapped_def Let_def)

lemma close_body_metricsHandler:
  "close_body rw = (err, rw') \<Longrightarrow> metricsHandler rw' = metricsHandler rw"
  by (auto simp: close_body_def split: option.splits prod.splits)

lemma Close_metricsHandler:
  "metricsHandler (snd (Close rw)) = metricsHandler rw @ [GetMetricsData (snd (Close rw))]"
proof -
  obtain err rw' where c: "close_body rw = (err, rw')" by (metis prod.exhaust)
  then have s: "snd (Close rw) = close_deferred rw'" by (simp add: Close_def)
  have "metricsHandler (close_deferred rw') = metricsHandler rw' @ [GetMetricsData rw']"
    by (simp add: close_deferred_def GetMetricsData_def GetOriginalSize_def GetCompressedSize_def
      GetCompressionApplied_def GetEncoding_def Swapped_def Let_def)
  then show ?thesis
    using s close_body_metricsHandler [OF c] by (simp add: GetMetricsData_close_deferred)
qed

lemma GetMetricsData_sizes:
  "\<not> CompressionApplied (GetMetricsData rw) \<Longrightarrow>
     CompressedSize (GetMetricsData rw) = OriginalSize (GetMetricsData rw)"
  by (simp add: GetMetricsData_def GetCompressedSize_def GetOriginalSize_def)

lemma respond_snd:
  "snd (respond w swapSize enc a calls) = snd (Close (snd (handler (newResponseWriter w swapSize enc a) calls)))"
  by (simp add: respond_def split: prod.splits)

text \<open>
  Claim C3. \<^verbatim>\<open>Close\<close> calls the metrics handler exactly once, with the metrics of
  the final state, whether its flush or its compressor close returned an error or not;
  no other operation calls it, so a response ends with exactly one report; and a report
  that says compression was not applied has equal compressed and original sizes.
\<close>

theorem metrics_reported_once:
  "(\<forall>err rw'. Close rw = (err, rw') \<longrightarrow>
      metricsHandler rw' = metricsHandler rw @ [GetMetricsData rw'] \<and>
      (\<not> CompressionApplied (GetMetricsData rw') \<longrightarrow>
         CompressedSize (GetMetricsData rw') = OriginalSize (GetMetricsData rw'))) \<and>
   (\<forall>es rw'. respond w swapSize enc a calls = (es, rw') \<longrightarrow>
      metricsHandler rw' = [GetMetricsData rw'])"
proof (intro conjI allI impI)
  fix err rw'
  assume "Close rw = (err, rw')"
  then have "rw' = snd (Close rw)" by simp
  then show "metricsHandler rw' = metricsHandler rw @ [GetMetricsData rw']"
    using Close_metricsHandler [of rw] by simp
next
  fix err rw'
  assume "\<not> CompressionApplied (GetMetricsData rw')"
  then show "CompressedSize (GetMetricsData rw') = OriginalSize (GetMetricsData rw')"
    by (rule GetMetricsData_sizes)
next
  fix es rw'
  assume "respond w swapSize enc a calls = (es, rw')"
  then have r: "rw' = snd (Close (snd (handler (newResponseWriter w swapSize enc a) calls)))"
    using respond_snd [of w swapSize enc a calls] by simp
  have "metricsHandler (snd (handler (newResponseWriter w swapSize enc a) calls)) = []"
    by (simp add: handler_metricsHandler) (simp add: newResponseWriter_def)
  then show "metricsHandler rw' = [GetMetricsData rw']"
    using r Close_metricsHandler [of "snd (handler (newResponseWriter w swapSize enc a) calls)"] by simp
qed

text \<open>
  The witness: two finalizations that return an error. In the first the transport
  refuses the flush of the ten buffered bytes after two of them; in the second it
  refuses the trailer the compressor writes on \<^verbatim>\<open>Close\<close>. Each ends with one
  report. The report of a writer closed before any write says that compression was not
  applied and has equal sizes.
\<close>

theorem metrics_reported_once_witness:
  "fst (respond (fresh [Refuse 2 ''reset'']) 512 ''gzip'' framing
        [CallWriteHeader 200, CallWriteString ''SMALL BODY''])
     = [None, None, Some (TransportError ''reset'')] \<and>
   metricsHandler (snd (respond (fresh [Refuse 2 ''reset'']) 512 ''gzip'' framing
        [CallWriteHeader 200, CallWriteString ''SMALL BODY'']))
     = [\<lparr>OriginalSize = 10, CompressedSize = 10, CompressionApplied = False, EncodingUsed = []\<rparr>] \<and>
   fst (Close (snd (Write (newResponseWriter (fresh [Accept, Accept, Refuse 0 ''reset'']) 4 ''gzip'' framing) ''hello'')))
     = Some (TransportError ''reset'') \<and>
   metricsHandler (snd (Close (snd (Write (newResponseWriter (fresh [Accept, Accept, Refuse 0 ''reset'']) 4 ''gzip'' framing) ''hello''))))
     = [\<lparr>OriginalSize = 5, CompressedSize = 6, CompressionApplied = True, EncodingUsed = ''gzip''\<rparr>] \<and>
   \<not> CompressionApplied (GetMetricsData (snd (Close (newResponseWriter (fresh []) 4 ''gzip'' framing)))) \<and>
   CompressedSize (GetMetricsData (snd (Close (newResponseWriter (fresh []) 4 ''gzip'' framing))))
     = OriginalSize (GetMetricsData (snd (Close (newResponseWriter (fresh []) 4 ''gzip'' framing))))"
proof -
  let ?small = "respond (fresh [Refuse 2 ''reset'']) 512 ''gzip'' framing
        [CallWriteHeader 200, CallWriteString ''SMALL BODY'']"
  let ?swapped = "snd (Write (newResponseWriter (fresh [Accept, Accept, Refuse 0 ''reset'']) 4 ''gzip'' framing) ''hello'')"
  let ?new = "newResponseWriter (fresh []) 4 ''gzip'' framing"
  have e1: "fst ?small = [None, None, Some (TransportError ''reset'')]"
    by (simp add: eval_defs)
  have g1: "GetMetricsData (snd ?small)
      = \<lparr>OriginalSize = 10, CompressedSize = 10, CompressionApplied = False, EncodingUsed = []\<rparr>"
    by (simp add: eval_defs)
  have m1: "metricsHandler (snd ?small) = [GetMetricsData (snd ?small)]"
    using metrics_reported_once [of ?new "fresh [Refuse 2 ''reset'']" 512 "''gzip''" framing
        "[CallWriteHeader 200, CallWriteString ''SMALL BODY'']"]
    by (metis prod.collapse)
  have e2: "fst (Close ?swapped) = Some (TransportError ''reset'')"
    by (simp add: eval_defs)
  have h2: "metricsHandler ?swapped = []" by (simp add: eval_defs)
  have g2: "GetMetricsData (snd (Close ?swapped))
      = \<lparr>OriginalSize = 5, CompressedSize = 6, CompressionApplied = True, EncodingUsed = ''gzip''\<rparr>"
    by (simp add: eval_defs)
  have c2: "Close ?swapped = (fst (Close ?swapped), snd (Close ?swapped))" by simp
  from metrics_reported_once [of ?swapped "fresh []" 1 "[]" framing "[]", THEN conjunct1, rule_format, OF c2] h2
  have m2: "metricsHandler (snd (Close ?swapped)) = [GetMetricsData (snd (Close ?swapped))]" by simp
  have n3: "\<not> CompressionApplied (GetMetricsData (snd (Close ?new)))" by (simp add: eval_defs)
  have c3: "Close ?new = (fst (Close ?new), snd (Close ?new))" by simp
  from metrics_reported_once [of ?new "fresh []" 1 "[]" framing "[]", THEN conjunct1, rule_format, OF c3] n3
  have s3: "CompressedSize (GetMetricsData (snd (Close ?new)))
     = OriginalSize (GetMetricsData (snd (Close ?new)))" by blast
  show ?thesis using e1 g1 m1 e2 g2 m2 n3 s3 by simp
qed

subsection \<open>Buffering\<close>

text \<open>
  A \<^verbatim>\<open>Write\<close> below the threshold only appends to the buffer. Conversely, a
  \<^verbatim>\<open>Write\<close> that returns no error and leaves the writer unswapped was such a write:
  an attempted swap either fails with an error or ends swapped.
\<close>

lemma Write_buffered:
  assumes "buf rw = Some xs" and "int (length xs) + int (length b) < threshold rw"
  shows "Write rw b =
    ((length b, None),
     (map_Header (header_Del ''Content-Length'') rw)
        \<lparr>buf := Some (xs @ b), bytesWritten := bytesWritten rw + int (length b)\<rparr>)"
  using assms by (simp add: Write_def swap_def write_to_def)

lemma swap_outcome:
  assumes "swap rw b = (r, rw')" and "buf rw = Some xs"
  shows "(r = None \<and> rw' = rw \<and> int (length xs) + int (length b) < threshold rw) \<or>
         (r = None \<and> buf rw' = None) \<or> r \<noteq> None"
  using assms by (auto simp: swap_def Let_def split: if_splits prod.splits option.splits)

lemma Write_unswapped:
  assumes "Write rw b = ((n, None), rw')" and "buf rw' \<noteq> None"
  shows "\<exists>xs. buf rw = Some xs \<and> int (length xs) + int (length b) < threshold rw"
proof -
  let ?rw1 = "map_Header (header_Del ''Content-Length'') rw"
  have "buf rw \<noteq> None"
    using Write_Swapped [of rw b] assms by (auto simp: Swapped_def)
  then obtain xs where xs: "buf rw = Some xs" by auto
  obtain r rw2 where s: "swap ?rw1 b = (r, rw2)" by (metis prod.exhaust)
  have r: "r = None" using assms(1) s by (auto simp: Write_def split: option.splits)
  then have w: "write_to rw2 b = ((n, None), rw')" using assms(1) s by (simp add: Write_def)
  have "buf rw2 \<noteq> None" using write_to_buf [OF w] assms(2) by simp
  then have "int (length xs) + int (length b) < threshold ?rw1"
    using swap_outcome [OF s, of xs] xs r by auto
  then show ?thesis using xs by simp
qed

lemma untouched_refl: "untouched rw rw"
  by (simp add: untouched_def)

lemma untouched_trans: "untouched rw rw1 \<Longrightarrow> untouched rw1 rw2 \<Longrightarrow> untouched rw rw2"
  by (simp add: untouched_def)

lemma untouched_Del:
  "untouched rw ((map_Header (header_Del ''Content-Length'') rw)\<lparr>buf := bf, bytesWritten := k\<rparr>)"
  by (simp add: untouched_def Header_def map_Header_def header_Del_def)

lemma untouched_WriteHeader: "untouched rw (WriteHeader rw code)"
  by (simp add: untouched_def WriteHeader_def Header_def map_Header_def header_Del_def
      sink_WriteHeader_def Let_def)

lemma WriteHeader_bytesWritten [simp]: "bytesWritten (WriteHeader rw code) = bytesWritten rw"
  by (simp add: WriteHeader_def Let_def)

lemma perform_buffered:
  assumes "buf rw = Some xs" and "int (length xs) + int (length (written c)) < threshold rw"
  shows "\<exists>rw'. perform rw c = (None, rw') \<and> buf rw' = Some (xs @ written c) \<and>
           bytesWritten rw' = bytesWritten rw + int (length (written c)) \<and> untouched rw rw'"
proof (cases c)
  case (CallWrite b)
  then show ?thesis using Write_buffered [of rw xs b] assms by (simp add: untouched_Del)
next
  case (CallWriteString s)
  then show ?thesis using Write_buffered [of rw xs s] assms
    by (simp add: untouched_Del WriteString_def)
next
  case (CallWriteHeader code)
  then show ?thesis using assms by (simp add: untouched_WriteHeader)
qed

lemma perform_unswapped:
  assumes "perform rw c = (None, rw')" and "buf rw' \<noteq> None"
  shows "\<exists>xs. buf rw = Some xs \<and> buf rw' = Some (xs @ written c) \<and>
           bytesWritten rw' = bytesWritten rw + int (length (written c)) \<and> untouched rw rw'"
proof (cases c)
  case (CallWrite b)
  then obtain n where w: "Write rw b = ((n, None), rw')"
    using assms(1) by (auto split: prod.splits)
  from Write_unswapped [OF w assms(2)] obtain xs where
    xs: "buf rw = Some xs" "int (length xs) + int (length b) < threshold rw" by auto
  from perform_buffered [of rw xs c] xs CallWrite assms(1) show ?thesis by auto
next
  case (CallWriteString s)
  then obtain n where w: "Write rw s = ((n, None), rw')"
    using assms(1) by (auto simp: WriteString_def split: prod.splits)
  from Write_unswapped [OF w assms(2)] obtain xs where
    xs: "buf rw = Some xs" "int (length xs) + int (length s) < threshold rw" by auto
  from perform_buffered [of rw xs c] xs CallWriteString assms(1) show ?thesis by auto
next
  case (CallWriteHeader code)
  then have "rw' = WriteHeader rw code" using assms(1) by simp
  then show ?thesis using assms(2) CallWriteHeader by (auto simp: untouched_WriteHeader)
qed

lemma body_of_Cons: "body_of (c # cs) = written c @ body_of cs"
  by (simp add: body_of_def)

lemma handler_Swapped:
  "Swapped rw \<Longrightarrow> Swapped (snd (handler rw calls))"
proof (induction calls arbitrary: rw)
  case Nil
  then show ?case by simp
next
  case (Cons c cs)
  have "snd (handler rw (c # cs)) = snd (handler (snd (perform rw c)) cs)"
    by (simp split: prod.splits)
  then show ?case using Cons.IH [OF perform_Swapped [OF Cons.prems, of c]] by simp
qed

lemma handler_unswapped:
  assumes "handler rw calls = (es, rw')" and "list_all (\<lambda>e. e = None) es" and "buf rw' \<noteq> None"
  shows "\<exists>xs. buf rw = Some xs \<and> buf rw' = Some (xs @ body_of calls) \<and>
           bytesWritten rw' = bytesWritten rw + int (length (body_of calls)) \<and> untouched rw rw'"
  using assms
proof (induction calls arbitrary: rw es)
  case Nil
  then show ?case by (auto simp: body_of_def untouched_refl)
next
  case (Cons c cs)
  obtain e rw1 where p: "perform rw c = (e, rw1)" by (metis prod.exhaust)
  obtain es1 where h: "handler rw1 cs = (es1, rw')" and es: "es = e # es1"
    using Cons.prems(1) p by (auto split: prod.splits)
  have e: "e = None" and es1: "list_all (\<lambda>e. e = None) es1" using Cons.prems(2) es by simp_all
  from Cons.IH [OF h es1 Cons.prems(3)] obtain ys where
    ys: "buf rw1 = Some ys" "buf rw' = Some (ys @ body_of cs)"
        "bytesWritten rw' = bytesWritten rw1 + int (length (body_of cs))" "untouched rw1 rw'"
    by auto
  from perform_unswapped [of rw c rw1] p e ys(1) obtain xs where
    xs: "buf rw = Some xs" "buf rw1 = Some (xs @ written c)"
        "bytesWritten rw1 = bytesWritten rw + int (length (written c))" "untouched rw rw1"
    by auto
  show ?case
    using xs ys untouched_trans [OF xs(4) ys(4)] by (simp add: body_of_Cons)
qed

lemma handler_buffered:
  assumes "buf rw = Some xs" and "int (length xs) + int (length (body_of calls)) < threshold rw"
  shows "\<exists>es rw'. handler rw calls = (es, rw') \<and> list_all (\<lambda>e. e = None) es \<and>
           buf rw' = Some (xs @ body_of calls)"
  using assms
proof (induction calls arbitrary: rw xs)
  case Nil
  then show ?case by (simp add: body_of_def)
next
  case (Cons c cs)
  have "int (length xs) + int (length (written c)) < threshold rw"
    using Cons.prems(2) by (simp add: body_of_Cons)
  from perform_buffered [OF Cons.prems(1) this] obtain rw1 where
    p: "perform rw c = (None, rw1)" "buf rw1 = Some (xs @ written c)" "untouched rw rw1"
    by auto
  have "int (length (xs @ written c)) + int (length (body_of cs)) < threshold rw1"
    using Cons.prems(2) p(3) by (simp add: body_of_Cons untouched_def)
  from Cons.IH [OF p(2) this] obtain es rw' where
    "handler rw1 cs = (es, rw')" "list_all (\<lambda>e. e = None) es"
    "buf rw' = Some (xs @ written c @ body_of cs)" by auto
  then show ?case using p(1) by (simp add: body_of_Cons)
qed

subsection \<open>Responses that are passed through\<close>

lemma sink_Write_ok:
  "sink_Write s b = ((n, None), s') \<Longrightarrow> n = length b \<and> body s' = body s @ b"
  by (auto simp: sink_Write_def Let_def split: option.splits list.splits outcome.splits)

lemma tw_Write_ok:
  "tw_Write tw b = ((n, None), tw') \<Longrightarrow>
     n = length b \<and> body (tw_ResponseWriter tw') = body (tw_ResponseWriter tw) @ b \<and>
     tw_bytesWritten tw' = tw_bytesWritten tw + int (length b)"
  by (auto simp: tw_Write_def split: prod.splits dest: sink_Write_ok)

lemma io_Copy_tracker_ok:
  "io_Copy tw_Write tw xs = ((n, None), tw', rest) \<Longrightarrow>
     body (tw_ResponseWriter tw') = body (tw_ResponseWriter tw) @ xs \<and>
     tw_bytesWritten tw' = tw_bytesWritten tw + int (length xs)"
  by (auto simp: io_Copy_def split: if_splits prod.splits option.splits dest: tw_Write_ok)

lemma Close_buffered:
  assumes "buf rw = Some xs" and "Close rw = (err, rw')"
  shows "\<not> Swapped rw'"
    and "Header rw' = Header rw"
    and "bytesWritten rw' = bytesWritten rw"
    and "metricsHandler rw' = metricsHandler rw @
           [\<lparr>OriginalSize = bytesWritten rw, CompressedSize = bytesWritten rw,
             CompressionApplied = False, EncodingUsed = []\<rparr>]"
    and "err = None \<Longrightarrow>
           body (tw_ResponseWriter (ResponseWriter rw')) = body (tw_ResponseWriter (ResponseWriter rw)) @ xs \<and>
           tw_bytesWritten (ResponseWriter rw') = tw_bytesWritten (ResponseWriter rw) + int (length xs)"
proof -
  obtain n e tw rest where c: "io_Copy tw_Write (ResponseWriter rw) xs = ((n, e), tw, rest)"
    by (metis prod.exhaust)
  have rw': "err = e" "rw' = close_deferred (rw\<lparr>ResponseWriter := tw, buf := Some rest\<rparr>)"
    using assms c by (auto simp: Close_def close_body_def)
  show "\<not> Swapped rw'" using rw' by (simp add: Swapped_def)
  show "Header rw' = Header rw"
    using rw' io_Copy_tracker_header [OF c] by (simp add: Header_def close_deferred_def Let_def Swapped_def GetCompressionApplied_def)
  show "bytesWritten rw' = bytesWritten rw"
    using rw' by (simp add: close_deferred_def Let_def Swapped_def GetCompressionApplied_def)
  show "metricsHandler rw' = metricsHandler rw @
           [\<lparr>OriginalSize = bytesWritten rw, CompressedSize = bytesWritten rw,
             CompressionApplied = False, EncodingUsed = []\<rparr>]"
    using rw' by (simp add: close_deferred_def Let_def Swapped_def GetCompressionApplied_def
        GetMetricsData_def GetOriginalSize_def GetCompressedSize_def GetEncoding_def)
  show "body (tw_ResponseWriter (ResponseWriter rw')) = body (tw_ResponseWriter (ResponseWriter rw)) @ xs \<and>
           tw_bytesWritten (ResponseWriter rw') = tw_bytesWritten (ResponseWriter rw) + int (length xs)"
    if "err = None"
    using that rw' io_Copy_tracker_ok [of "ResponseWriter rw" xs n tw rest] c
    by (simp add: close_deferred_def Let_def Swapped_def GetCompressionApplied_def)
qed

lemma respond_split:
  assumes "respond w swapSize enc a calls = (es, rw')"
  obtains es1 rw1 err where "handler (newResponseWriter w swapSize enc a) calls = (es1, rw1)"
    and "Close rw1 = (err, rw')" and "es = es1 @ [err]"
  using assms by (auto simp: respond_def split: prod.splits)

lemma states_last:
  "last (states rw calls) = snd (Close (snd (handler rw calls)))"
proof (induction calls arbitrary: rw)
  case Nil
  show ?case by simp
next
  case (Cons c cs)
  have "states (snd (perform rw c)) cs \<noteq> []" by (cases cs) simp_all
  then show ?case using Cons.IH [of "snd (perform rw c)"] by (simp split: prod.splits)
qed

lemma states_never_Swapped:
  assumes "\<not> Swapped (last (states rw calls))"
  shows "list_all (\<lambda>s. \<not> Swapped s) (states rw calls)"
proof -
  have ne: "states rw calls \<noteq> []" by (cases calls) simp_all
  have "\<not> Swapped s" if "s \<in> set (states rw calls)" for s
  proof
    assume "Swapped s"
    from that obtain i where i: "i < length (states rw calls)" "states rw calls ! i = s"
      by (auto simp: in_set_conv_nth)
    have "map Swapped (states rw calls) ! i \<le> map Swapped (states rw calls) ! (length (states rw calls) - 1)"
      using sorted_Swapped_states [of rw calls] i(1) by (intro sorted_nth_mono) auto
    then have "Swapped (states rw calls ! (length (states rw calls) - 1))"
      using i \<open>Swapped s\<close> ne by simp
    then show False using assms ne by (simp add: last_conv_nth)
  qed
  then show ?thesis by (simp add: list_all_iff)
qed

text \<open>
  Claim C1. When the bytes passed to the writer's writes add up to less than the
  threshold, no state of the response is swapped, \<^verbatim>\<open>Content-Encoding\<close> and
  \<^verbatim>\<open>Vary\<close> are as the transport had them before the writer was installed (so absent
  when they were absent), and the one metrics report says: not applied, no encoding,
  original size = compressed size = size of the body. This holds for every codec and
  every transport, failing or not.
\<close>

theorem small_body_not_compressed:
  assumes "int (length (body_of calls)) < swapSize"
    and "respond w swapSize enc a calls = (es, rw')"
  shows "list_all (\<lambda>s. \<not> Swapped s) (states (newResponseWriter w swapSize enc a) calls) \<and>
         Header rw' ''Content-Encoding'' = header w ''Content-Encoding'' \<and>
         Header rw' ''Vary'' = header w ''Vary'' \<and>
         metricsHandler rw' =
           [\<lparr>OriginalSize = int (length (body_of calls)),
             CompressedSize = int (length (body_of calls)),
             CompressionApplied = False, EncodingUsed = []\<rparr>]"
proof -
  let ?rw0 = "newResponseWriter w swapSize enc a"
  from respond_split [OF assms(2)] obtain es1 rw1 err where
    h: "handler ?rw0 calls = (es1, rw1)" and c: "Close rw1 = (err, rw')" and "es = es1 @ [err]"
    by blast
  have b0: "buf ?rw0 = Some []" and t0: "threshold ?rw0 = swapSize"
    and bw0: "bytesWritten ?rw0 = 0" and m0: "metricsHandler ?rw0 = []"
    and h0: "Header ?rw0 = header w"
    by (simp_all add: newResponseWriter_def newTrackingResponseWriter_def Header_def)
  from handler_buffered [of ?rw0 "[]" calls] b0 t0 assms(1) h
  have ok: "list_all (\<lambda>e. e = None) es1" and b1: "buf rw1 = Some (body_of calls)" by auto
  from handler_unswapped [OF h ok] b1 b0
  have bw1: "bytesWritten rw1 = int (length (body_of calls))" and u: "untouched ?rw0 rw1"
    using bw0 by auto
  note cl = Close_buffered [OF b1 c]
  have "\<not> Swapped (last (states ?rw0 calls))"
    using cl(1) h c by (simp add: states_last)
  then have "list_all (\<lambda>s. \<not> Swapped s) (states ?rw0 calls)"
    by (rule states_never_Swapped)
  moreover have "Header rw' ''Content-Encoding'' = header w ''Content-Encoding''"
    and "Header rw' ''Vary'' = header w ''Vary''"
    using cl(2) u h0 by (simp_all add: untouched_def)
  moreover have "metricsHandler rw' =
           [\<lparr>OriginalSize = int (length (body_of calls)),
             CompressedSize = int (length (body_of calls)),
             CompressionApplied = False, EncodingUsed = []\<rparr>]"
    using cl(4) u m0 bw1 by (simp add: untouched_def)
  ultimately show ?thesis by simp
qed

text \<open>
  The witness is the example of the specification: the ten bytes \<open>''SMALL BODY''\<close>
  under threshold 512.
\<close>

theorem small_body_not_compressed_witness:
  "int (length (body_of [CallWriteHeader 200, CallWriteString ''SMALL BODY''])) < 512 \<and>
   map Swapped (states (newResponseWriter (fresh []) 512 ''gzip'' framing)
        [CallWriteHeader 200, CallWriteString ''SMALL BODY'']) = [False, False, False, False] \<and>
   Header (snd (respond (fresh []) 512 ''gzip'' framing
        [CallWriteHeader 200, CallWriteString ''SMALL BODY''])) ''Content-Encoding'' = None \<and>
   Header (snd (respond (fresh []) 512 ''gzip'' framing
        [CallWriteHeader 200, CallWriteString ''SMALL BODY''])) ''Vary'' = None \<and>
   metricsHandler (snd (respond (fresh []) 512 ''gzip'' framing
        [CallWriteHeader 200, CallWriteString ''SMALL BODY'']))
     = [\<lparr>OriginalSize = 10, CompressedSize = 10, CompressionApplied = False, EncodingUsed = []\<rparr>]"
proof -
  let ?calls = "[CallWriteHeader 200, CallWriteString ''SMALL BODY'']"
  let ?r = "respond (fresh []) 512 ''gzip'' (framing :: bool algorithm) ?calls"
  have len: "int (length (body_of ?calls)) = 10" by (simp add: body_of_def)
  have sw: "map Swapped (states (newResponseWriter (fresh []) 512 ''gzip'' framing) ?calls)
      = [False, False, False, False]"
    by (simp add: eval_defs)
  have r: "?r = (fst ?r, snd ?r)" by simp
  from small_body_not_compressed [of ?calls 512 "fresh []" "''gzip''" framing "fst ?r" "snd ?r"] len r
  have "Header (snd ?r) ''Content-Encoding'' = header (fresh []) ''Content-Encoding''"
    and "Header (snd ?r) ''Vary'' = header (fresh []) ''Vary''"
    and "metricsHandler (snd ?r) =
       [\<lparr>OriginalSize = 10, CompressedSize = 10, CompressionApplied = False, EncodingUsed = []\<rparr>]"
    by simp_all
  then show ?thesis using len sw by (simp add: fresh_def)
qed

text \<open>
  Claim C4, as stated, fails: a transport that refuses the flush of \<^verbatim>\<open>Close\<close> after
  two bytes has received \<open>''SM''\<close> of the ten bytes written, and the tracker's count
  (the transport size) is 2 while the original size is 10, although the writer never
  swapped.
\<close>

theorem passthrough_refused_counterexample:
  "map Swapped (states (newResponseWriter (fresh [Refuse 2 ''reset'']) 512 ''gzip'' framing)
        [CallWriteString ''SMALL BODY'']) = [False, False, False] \<and>
   body_of [CallWriteString ''SMALL BODY''] = ''SMALL BODY'' \<and>
   body (tw_ResponseWriter (ResponseWriter (snd (respond (fresh [Refuse 2 ''reset'']) 512 ''gzip'' framing
        [CallWriteString ''SMALL BODY''])))) = ''SM'' \<and>
   tw_bytesWritten (ResponseWriter (snd (respond (fresh [Refuse 2 ''reset'']) 512 ''gzip'' framing
        [CallWriteString ''SMALL BODY'']))) = 2 \<and>
   GetOriginalSize (snd (respond (fresh [Refuse 2 ''reset'']) 512 ''gzip'' framing
        [CallWriteString ''SMALL BODY''])) = 10 \<and>
   body (tw_ResponseWriter (ResponseWriter (snd (respond (fresh [Refuse 2 ''reset'']) 512 ''gzip'' framing
        [CallWriteString ''SMALL BODY''])))) \<noteq> body_of [CallWriteString ''SMALL BODY''] \<and>
   tw_bytesWritten (ResponseWriter (snd (respond (fresh [Refuse 2 ''reset'']) 512 ''gzip'' framing
        [CallWriteString ''SMALL BODY'']))) \<noteq>
     GetOriginalSize (snd (respond (fresh [Refuse 2 ''reset'']) 512 ''gzip'' framing
        [CallWriteString ''SMALL BODY'']))"
  by (simp add: eval_defs body_of_def)

text \<open>
  Claim C4, amended. For every response in which the writer never swaps and no call of
  the writer, \<^verbatim>\<open>Close\<close> included, returns an error, the transport has received, after
  what it held before, exactly the bytes the application wrote, in order, and the
  transport size (the tracker's count) equals the original size, the length of the body.
\<close>

theorem passthrough_identity:
  assumes "respond w swapSize enc a calls = (es, rw')"
    and "\<not> Swapped rw'"
    and "list_all (\<lambda>e. e = None) es"
  shows "body (tw_ResponseWriter (ResponseWriter rw')) = body w @ body_of calls \<and>
         tw_bytesWritten (ResponseWriter rw') = GetOriginalSize rw' \<and>
         GetOriginalSize rw' = int (length (body_of calls))"
proof -
  let ?rw0 = "newResponseWriter w swapSize enc a"
  from respond_split [OF assms(1)] obtain es1 rw1 err where
    h: "handler ?rw0 calls = (es1, rw1)" and c: "Close rw1 = (err, rw')" and es: "es = es1 @ [err]"
    by blast
  have ok: "list_all (\<lambda>e. e = None) es1" and err: "err = None" using assms(3) es by simp_all
  have "\<not> Swapped rw1" using Close_Swapped [of rw1] c assms(2) by simp
  then have b1: "buf rw1 \<noteq> None" by (simp add: Swapped_def)
  from handler_unswapped [OF h ok b1]
  have b: "buf rw1 = Some (body_of calls)"
    and bw: "bytesWritten rw1 = int (length (body_of calls))"
    and u: "untouched ?rw0 rw1"
    by (auto simp: newResponseWriter_def)
  note cl = Close_buffered [OF b c]
  have "body (tw_ResponseWriter (ResponseWriter ?rw0)) = body w"
    and "tw_bytesWritten (ResponseWriter ?rw0) = 0"
    by (simp_all add: newResponseWriter_def newTrackingResponseWriter_def)
  then show ?thesis
    using cl(3) cl(5) [OF err] bw u by (simp add: untouched_def GetOriginalSize_def)
qed

text \<open>
  The witness: on a transport that accepts every write, the ten bytes of
  \<open>''SMALL BODY''\<close>, written in two pieces, arrive as they were written.
\<close>

theorem passthrough_identity_witness:
  "\<not> Swapped (snd (respond (fresh []) 512 ''gzip'' framing [CallWrite ''SMALL'', CallWriteString '' BODY''])) \<and>
   fst (respond (fresh []) 512 ''gzip'' framing [CallWrite ''SMALL'', CallWriteString '' BODY''])
     = [None, None, None] \<and>
   body (tw_ResponseWriter (ResponseWriter
      (snd (respond (fresh []) 512 ''gzip'' framing [CallWrite ''SMALL'', CallWriteString '' BODY'']))))
     = ''SMALL BODY'' \<and>
   tw_bytesWritten (ResponseWriter
      (snd (respond (fresh []) 512 ''gzip'' framing [CallWrite ''SMALL'', CallWriteString '' BODY''])))
     = 10"
proof -
  let ?calls = "[CallWrite ''SMALL'', CallWriteString '' BODY'']"
  let ?r = "respond (fresh []) 512 ''gzip'' (framing :: bool algorithm) ?calls"
  have s: "\<not> Swapped (snd ?r)" by (simp add: eval_defs)
  have e: "fst ?r = [None, None, None]" by (simp add: eval_defs)
  have r: "?r = (fst ?r, snd ?r)" by simp
  have ok: "list_all (\<lambda>e. e = None) (fst ?r)" using e by simp
  from passthrough_identity [OF r s ok]
  show ?thesis using s e by (simp add: body_of_def fresh_def)
qed

subsection \<open>Responses that are compressed\<close>

text \<open>On a reliable transport a call of the encoder runs as \<open>ideal\<close> says.\<close>

lemma sink_Write_reliable:
  assumes "reliable s"
  shows "\<exists>s'. sink_Write s b = ((length b, None), s') \<and> body s' = body s @ b \<and> reliable s'"
proof (cases "faults s")
  case Nil
  then show ?thesis using assms by (simp add: sink_Write_def reliable_def Let_def split: option.splits)
next
  case (Cons f fs)
  then have "f = Accept" and "list_all (\<lambda>f. f = Accept) fs" using assms by (simp_all add: reliable_def)
  then show ?thesis using Cons by (simp add: sink_Write_def reliable_def Let_def split: option.splits)
qed

lemma tw_Write_reliable:
  assumes "reliable (tw_ResponseWriter tw)"
  shows "\<exists>tw'. tw_Write tw b = ((length b, None), tw') \<and>
           body (tw_ResponseWriter tw') = body (tw_ResponseWriter tw) @ b \<and>
           reliable (tw_ResponseWriter tw')"
proof -
  from sink_Write_reliable [OF assms, of b] obtain s' where
    "sink_Write (tw_ResponseWriter tw) b = ((length b, None), s')"
    "body s' = body (tw_ResponseWriter tw) @ b" "reliable s'" by auto
  then show ?thesis by (simp add: tw_Write_def)
qed

lemma drive_reliable:
  assumes "reliable (tw_ResponseWriter tw)"
  shows "\<exists>tw'. drive p tw = (snd (ideal p), tw') \<and>
           body (tw_ResponseWriter tw') = body (tw_ResponseWriter tw) @ fst (ideal p) \<and>
           reliable (tw_ResponseWriter tw')"
  using assms
proof (induction p arbitrary: tw)
  case (Done r)
  then show ?case by simp
next
  case (Emit x k)
  from tw_Write_reliable [OF Emit.prems, of x] obtain tw1 where
    w: "tw_Write tw x = ((length x, None), tw1)"
    and b1: "body (tw_ResponseWriter tw1) = body (tw_ResponseWriter tw) @ x"
    and r1: "reliable (tw_ResponseWriter tw1)" by auto
  from Emit.IH [OF _ r1, of "k (length x, None)"] obtain tw' where
    "drive (k (length x, None)) tw1 = (snd (ideal (k (length x, None))), tw')"
    "body (tw_ResponseWriter tw') = body (tw_ResponseWriter tw1) @ fst (ideal (k (length x, None)))"
    "reliable (tw_ResponseWriter tw')"
    by (auto simp: range_eqI)
  then show ?case using w b1 by (simp split: prod.splits)
qed

lemma fed_init: "fed A (getWriter A) [] []"
proof -
  have "map_option ((@) []) z = z" for z :: "bytes option" by (cases z) simp_all
  then show ?thesis by (simp add: fed_def)
qed

lemma map_option_append:
  "map_option ((@) (out @ x)) z = map_option ((@) out) (map_option ((@) x) z)"
  by (cases z) simp_all

lemma fed_step:
  assumes "fed A c out bs" and "ideal (enc_Write A c b) = (x, ((length b, None), c'))"
  shows "fed A c' (out @ x) (bs @ [b])"
  unfolding fed_def
proof
  fix fut
  have "stream A (getWriter A) (bs @ (b # fut)) = map_option ((@) out) (stream A c (b # fut))"
    using assms(1) by (simp add: fed_def)
  moreover have "stream A c (b # fut) = map_option ((@) x) (stream A c' fut)"
    using assms(2) by (simp split: option.splits)
  ultimately show "stream A (getWriter A) ((bs @ [b]) @ fut) = map_option ((@) (out @ x)) (stream A c' fut)"
    by (simp add: map_option_append)
qed

lemma stream_Cons_Some:
  assumes "stream A c (b # bs) = Some z"
  shows "\<exists>x c'. ideal (enc_Write A c b) = (x, ((length b, None), c'))"
proof -
  obtain x n e c' where i: "ideal (enc_Write A c b) = (x, ((n, e), c'))"
    by (metis prod.exhaust)
  then have "e = None" and "n = length b"
    using assms by (cases e; simp split: if_splits)+
  then show ?thesis using i by auto
qed

lemma stream_Nil_Some:
  assumes "stream A c [] = Some z"
  shows "\<exists>c'. ideal (enc_Close A c) = (z, (None, c'))"
proof -
  obtain x e c' where i: "ideal (enc_Close A c) = (x, (e, c'))" by (metis prod.exhaust)
  then show ?thesis using assms by (cases e) simp_all
qed

text \<open>A lossless encoder that has been fed takes the next input and closes without error.\<close>

lemma fed_takes:
  assumes "lossless A dec" and "fed A c out bs"
  shows "\<exists>x c'. ideal (enc_Write A c b) = (x, ((length b, None), c'))"
proof -
  from assms(1) obtain z where "stream A (getWriter A) (bs @ [b]) = Some z"
    unfolding lossless_def by blast
  then have "map_option ((@) out) (stream A c [b]) = Some z"
    using assms(2) [unfolded fed_def, rule_format, of "[b]"] by simp
  then obtain z' where "stream A c [b] = Some z'" by (cases "stream A c [b]") simp_all
  from stream_Cons_Some [OF this] show ?thesis .
qed

lemma fed_closes:
  assumes "lossless A dec" and "fed A c out bs"
  shows "\<exists>x c'. ideal (enc_Close A c) = (x, (None, c')) \<and> dec (out @ x) = Some (concat bs)"
proof -
  from assms(1) obtain z where z: "stream A (getWriter A) bs = Some z" "dec z = Some (concat bs)"
    unfolding lossless_def by blast
  then have m: "map_option ((@) out) (stream A c []) = Some z"
    using assms(2) [unfolded fed_def, rule_format, of "[]"] by simp
  then obtain x where x: "stream A c [] = Some x" "z = out @ x"
    by (cases "stream A c []") auto
  from stream_Nil_Some [OF x(1)] z(2) x(2) show ?thesis by auto
qed

lemma compressor_Write_reliable:
  assumes "lossless A dec" and "fed A c (body (tw_ResponseWriter tw)) bs"
    and "reliable (tw_ResponseWriter tw)"
  shows "\<exists>c' tw'. compressor_Write A (c, tw) b = ((length b, None), c', tw') \<and>
           fed A c' (body (tw_ResponseWriter tw')) (bs @ [b]) \<and> reliable (tw_ResponseWriter tw')"
proof -
  from fed_takes [OF assms(1,2), of b] obtain x c' where
    i: "ideal (enc_Write A c b) = (x, ((length b, None), c'))" by auto
  from drive_reliable [OF assms(3), of "enc_Write A c b"] i obtain tw' where
    d: "drive (enc_Write A c b) tw = (((length b, None), c'), tw')"
    and b: "body (tw_ResponseWriter tw') = body (tw_ResponseWriter tw) @ x"
    and r: "reliable (tw_ResponseWriter tw')" by auto
  have "compressor_Write A (c, tw) b = ((length b, None), c', tw')"
    using d by (simp add: compressor_Write_def)
  moreover have "fed A c' (body (tw_ResponseWriter tw')) (bs @ [b])"
    using fed_step [OF assms(2) i] b by simp
  ultimately show ?thesis using r by auto
qed

lemma compressor_Close_reliable:
  assumes "lossless A dec" and "fed A c (body (tw_ResponseWriter tw)) bs"
    and "reliable (tw_ResponseWriter tw)"
  shows "\<exists>c' tw'. compressor_Close A (c, tw) = (None, c', tw') \<and>
           dec (body (tw_ResponseWriter tw')) = Some (concat bs)"
proof -
  from fed_closes [OF assms(1,2)] obtain x c' where
    i: "ideal (enc_Close A c) = (x, (None, c'))"
    and d: "dec (body (tw_ResponseWriter tw) @ x) = Some (concat bs)" by auto
  from drive_reliable [OF assms(3), of "enc_Close A c"] i obtain tw' where
    "drive (enc_Close A c) tw = ((None, c'), tw')"
    "body (tw_ResponseWriter tw') = body (tw_ResponseWriter tw) @ x" by auto
  then show ?thesis using d by (auto simp: compressor_Close_def)
qed

lemma body_map_Header [simp]:
  "body (tw_ResponseWriter (ResponseWriter (map_Header f rw))) = body (tw_ResponseWriter (ResponseWriter rw))"
  by (simp add: map_Header_def)

lemma faults_map_Header [simp]:
  "faults (tw_ResponseWriter (ResponseWriter (map_Header f rw))) = faults (tw_ResponseWriter (ResponseWriter rw))"
  by (simp add: map_Header_def)

lemma reliable_map_Header [simp]:
  "reliable (tw_ResponseWriter (ResponseWriter (map_Header f rw))) = reliable (tw_ResponseWriter (ResponseWriter rw))"
  by (simp add: reliable_def)

lemma streamingI:
  "buf rw = None \<Longrightarrow> compressor rw = Some c \<Longrightarrow>
   fed (algo rw) c (body (tw_ResponseWriter (ResponseWriter rw))) bs \<Longrightarrow> streaming rw (concat bs)"
  unfolding streaming_def by blast

text \<open>A write in the streaming state feeds the compressor.\<close>

lemma Write_streaming_reliable:
  assumes "streaming rw done" and "reliable (tw_ResponseWriter (ResponseWriter rw))"
    and "lossless (algo rw) dec"
  shows "\<exists>rw'. Write rw b = ((length b, None), rw') \<and> streaming rw' (done @ b) \<and>
           reliable (tw_ResponseWriter (ResponseWriter rw')) \<and> algo rw' = algo rw"
proof -
  let ?rw1 = "map_Header (header_Del ''Content-Length'') rw"
  from assms(1) obtain c bs where
    b: "buf rw = None" and c: "compressor rw = Some c" and bs: "concat bs = done"
    and f: "fed (algo rw) c (body (tw_ResponseWriter (ResponseWriter rw))) bs"
    by (auto simp: streaming_def)
  have f1: "fed (algo rw) c (body (tw_ResponseWriter (ResponseWriter ?rw1))) bs" using f by simp
  have r1: "reliable (tw_ResponseWriter (ResponseWriter ?rw1))" using assms(2) by simp
  from compressor_Write_reliable [OF assms(3) f1 r1, of b] obtain c' tw where
    w: "compressor_Write (algo rw) (c, ResponseWriter ?rw1) b = ((length b, None), c', tw)"
    and f': "fed (algo rw) c' (body (tw_ResponseWriter tw)) (bs @ [b])"
    and r': "reliable (tw_ResponseWriter tw)" by auto
  let ?rw' = "?rw1\<lparr>compressor := Some c', ResponseWriter := tw,
      bytesWritten := bytesWritten rw + int (length b)\<rparr>"
  have "Write rw b = ((length b, None), ?rw')"
    using Write_streaming [OF b c, of b] w by simp
  moreover have "streaming ?rw' (concat (bs @ [b]))"
    using f' b by (intro streamingI [where c = c']) simp_all
  ultimately show ?thesis using bs r' by auto
qed

text \<open>The write that swaps: the buffer is drained into a new compressor, then \<open>b\<close> follows.\<close>

lemma io_Copy_compressor_reliable:
  assumes "lossless A dec" and "fed A c (body (tw_ResponseWriter tw)) bs"
    and "reliable (tw_ResponseWriter tw)"
  shows "\<exists>m c' tw' bs'. io_Copy (compressor_Write A) (c, tw) xs = ((m, None), (c', tw'), []) \<and>
           concat bs' = concat bs @ xs \<and> fed A c' (body (tw_ResponseWriter tw')) bs' \<and>
           reliable (tw_ResponseWriter tw')"
proof (cases "xs = []")
  case True
  then have "io_Copy (compressor_Write A) (c, tw) xs = ((0, None), (c, tw), [])"
    by (simp add: io_Copy_def)
  then show ?thesis using assms(2,3) True by auto
next
  case False
  from compressor_Write_reliable [OF assms, of xs] obtain c' tw' where
    w: "compressor_Write A (c, tw) xs = ((length xs, None), c', tw')"
    and f: "fed A c' (body (tw_ResponseWriter tw')) (bs @ [xs])"
    and r: "reliable (tw_ResponseWriter tw')" by auto
  have "io_Copy (compressor_Write A) (c, tw) xs = ((length xs, None), (c', tw'), [])"
    using False w by (simp add: io_Copy_def)
  moreover have "concat (bs @ [xs]) = concat bs @ xs" by simp
  ultimately show ?thesis using f r by blast
qed

lemma Write_swapping_reliable:
  assumes "buf rw = Some xs" and "threshold rw \<le> int (length xs) + int (length b)"
    and "body (tw_ResponseWriter (ResponseWriter rw)) = []"
    and "reliable (tw_ResponseWriter (ResponseWriter rw))" and "lossless (algo rw) dec"
  shows "\<exists>rw'. Write rw b = ((length b, None), rw') \<and> streaming rw' (xs @ b) \<and>
           reliable (tw_ResponseWriter (ResponseWriter rw')) \<and> algo rw' = algo rw"
proof -
  let ?A = "algo rw"
  let ?rw2 = "map_Header (header_Set ''Vary'' ''Accept-Encoding'')
      (map_Header (header_Set ''Content-Encoding'' (encoding rw))
        (map_Header (header_Del ''Content-Length'') rw))"
  have f0: "fed ?A (getWriter ?A) (body (tw_ResponseWriter (ResponseWriter ?rw2))) []"
    using assms(3) by (simp add: fed_init)
  have r0: "reliable (tw_ResponseWriter (ResponseWriter ?rw2))" using assms(4) by simp
  from io_Copy_compressor_reliable [OF assms(5) f0 r0, of xs] obtain m c1 tw1 bs1 where
    cp: "io_Copy (compressor_Write ?A) (getWriter ?A, ResponseWriter ?rw2) xs = ((m, None), (c1, tw1), [])"
    and bs1: "concat bs1 = xs" and f1: "fed ?A c1 (body (tw_ResponseWriter tw1)) bs1"
    and r1: "reliable (tw_ResponseWriter tw1)" by auto
  let ?rw3 = "?rw2\<lparr>compressor := Some c1, ResponseWriter := tw1, buf := None\<rparr>"
  have sw: "swap (map_Header (header_Del ''Content-Length'') rw) b = (None, ?rw3)"
    using assms(1,2) cp by (simp add: swap_def Let_def)
  from compressor_Write_reliable [OF assms(5) f1 r1, of b] obtain c2 tw2 where
    cw: "compressor_Write ?A (c1, tw1) b = ((length b, None), c2, tw2)"
    and f2: "fed ?A c2 (body (tw_ResponseWriter tw2)) (bs1 @ [b])"
    and r2: "reliable (tw_ResponseWriter tw2)" by auto
  let ?rw' = "?rw3\<lparr>compressor := Some c2, ResponseWriter := tw2,
      bytesWritten := bytesWritten rw + int (length b)\<rparr>"
  have "Write rw b = ((length b, None), ?rw')"
    using sw cw by (simp add: Write_def write_to_def)
  moreover have "streaming ?rw' (concat (bs1 @ [b]))"
    using f2 by (intro streamingI [where c = c2]) simp_all
  ultimately show ?thesis using bs1 r2 by auto
qed

lemma Write_serving:
  assumes "serving dec rw done"
  shows "\<exists>rw'. Write rw b = ((length b, None), rw') \<and> serving dec rw' (done @ b) \<and>
           threshold rw' = threshold rw"
proof -
  from assms have r: "reliable (tw_ResponseWriter (ResponseWriter rw))"
    and l: "lossless (algo rw) dec" by (simp_all add: serving_def)
  from assms consider
    (buffered) "buf rw = Some done" "body (tw_ResponseWriter (ResponseWriter rw)) = []"
      "int (length done) + int (length b) < threshold rw"
    | (swapping) "buf rw = Some done" "body (tw_ResponseWriter (ResponseWriter rw)) = []"
      "threshold rw \<le> int (length done) + int (length b)"
    | (streaming) "streaming rw done"
    by (cases "threshold rw \<le> int (length done) + int (length b)") (auto simp: serving_def)
  then show ?thesis
  proof cases
    case buffered
    let ?rw' = "(map_Header (header_Del ''Content-Length'') rw)
        \<lparr>buf := Some (done @ b), bytesWritten := bytesWritten rw + int (length b)\<rparr>"
    have "Write rw b = ((length b, None), ?rw')"
      using Write_buffered [OF buffered(1,3)] .
    moreover have "serving dec ?rw' (done @ b)"
      using r l buffered(2) by (simp add: serving_def)
    ultimately show ?thesis by simp
  next
    case swapping
    from Write_swapping_reliable [OF swapping(1,3,2) r l] obtain rw' where
      w: "Write rw b = ((length b, None), rw')" "streaming rw' (done @ b)"
        "reliable (tw_ResponseWriter (ResponseWriter rw'))" "algo rw' = algo rw" by auto
    have "threshold rw' = threshold rw"
      using w(1) assms swapping(1,3) by (auto simp: Write_def swap_def write_to_def Let_def
          split: prod.splits option.splits)
    then show ?thesis using w l by (auto simp: serving_def)
  next
    case streaming
    from Write_streaming_reliable [OF streaming r l, of b] obtain rw' where
      w: "Write rw b = ((length b, None), rw')" "streaming rw' (done @ b)"
        "reliable (tw_ResponseWriter (ResponseWriter rw'))" "algo rw' = algo rw" by auto
    have "buf rw = None" using streaming by (simp add: streaming_def)
    then have "threshold rw' = threshold rw"
      using w(1) by (auto simp: Write_def swap_def write_to_def split: prod.splits option.splits)
    then show ?thesis using w l by (auto simp: serving_def)
  qed
qed

lemma WriteHeader_serving:
  "serving dec rw done \<Longrightarrow> serving dec (WriteHeader rw code) done"
  by (auto simp: serving_def streaming_def reliable_def WriteHeader_def sink_WriteHeader_def
      map_Header_def Let_def)

lemma WriteHeader_threshold [simp]: "threshold (WriteHeader rw code) = threshold rw"
  by (simp add: WriteHeader_def Let_def)

lemma perform_serving:
  assumes "serving dec rw done"
  shows "\<exists>rw'. perform rw c = (None, rw') \<and> serving dec rw' (done @ written c) \<and>
           threshold rw' = threshold rw"
proof (cases c)
  case (CallWrite b)
  then show ?thesis using Write_serving [OF assms, of b] by auto
next
  case (CallWriteString s)
  then show ?thesis using Write_serving [OF assms, of s] by (auto simp: WriteString_def)
next
  case (CallWriteHeader code)
  then show ?thesis using WriteHeader_serving [OF assms, of code] by simp
qed

lemma handler_serving:
  assumes "serving dec rw done"
  shows "\<exists>es rw'. handler rw calls = (es, rw') \<and> list_all (\<lambda>e. e = None) es \<and>
           serving dec rw' (done @ body_of calls)"
  using assms
proof (induction calls arbitrary: rw "done")
  case Nil
  then show ?case by (simp add: body_of_def)
next
  case (Cons c cs)
  from perform_serving [OF Cons.prems, of c] obtain rw1 where
    p: "perform rw c = (None, rw1)" and s1: "serving dec rw1 (done @ written c)" by auto
  from Cons.IH [OF s1] obtain es rw' where
    "handler rw1 cs = (es, rw')" "list_all (\<lambda>e. e = None) es"
    "serving dec rw' ((done @ written c) @ body_of cs)" by auto
  then show ?case using p by (simp add: body_of_Cons)
qed

text \<open>A response that made a write and whose body reaches the threshold ends swapped.\<close>

lemma handler_below_threshold:
  assumes "handler rw calls = (es, rw')" and "list_all (\<lambda>e. e = None) es" and "buf rw' \<noteq> None"
    and "buf rw = Some xs" and "int (length xs) < threshold rw \<or> list_ex is_write calls"
  shows "int (length xs) + int (length (body_of calls)) < threshold rw"
  using assms
proof (induction calls arbitrary: rw xs es)
  case Nil
  then show ?case by (simp add: body_of_def)
next
  case (Cons c cs)
  obtain e rw1 where p: "perform rw c = (e, rw1)" by (metis prod.exhaust)
  obtain es1 where h: "handler rw1 cs = (es1, rw')" and es: "es = e # es1"
    using Cons.prems(1) p by (auto split: prod.splits)
  have e: "e = None" and es1: "list_all (\<lambda>e. e = None) es1" using Cons.prems(2) es by simp_all
  have "buf rw1 \<noteq> None"
    using handler_Swapped [of rw1 cs] h Cons.prems(3) by (auto simp: Swapped_def)
  from perform_unswapped [of rw c rw1] p e this Cons.prems(4)
  have b1: "buf rw1 = Some (xs @ written c)" and u: "untouched rw rw1" by auto
  have t: "threshold rw1 = threshold rw" using u by (simp add: untouched_def)
  have "int (length (xs @ written c)) < threshold rw1 \<or> list_ex is_write cs"
  proof (cases c)
    case (CallWrite b)
    then obtain n where "Write rw b = ((n, None), rw1)" using p e by (auto split: prod.splits)
    from Write_unswapped [OF this \<open>buf rw1 \<noteq> None\<close>] Cons.prems(4) CallWrite t
    show ?thesis by auto
  next
    case (CallWriteString s)
    then obtain n where "Write rw s = ((n, None), rw1)"
      using p e by (auto simp: WriteString_def split: prod.splits)
    from Write_unswapped [OF this \<open>buf rw1 \<noteq> None\<close>] Cons.prems(4) CallWriteString t
    show ?thesis by auto
  next
    case (CallWriteHeader code)
    then show ?thesis using Cons.prems(5) t by auto
  qed
  from Cons.IH [OF h es1 Cons.prems(3) b1 this] t show ?case by (simp add: body_of_Cons)
qed

lemma Close_streaming:
  assumes "streaming rw done" and "reliable (tw_ResponseWriter (ResponseWriter rw))"
    and "lossless (algo rw) dec"
  shows "\<exists>rw'. Close rw = (None, rw') \<and> Swapped rw' \<and>
           dec (body (tw_ResponseWriter (ResponseWriter rw'))) = Some done"
proof -
  let ?A = "algo rw"
  from assms(1) obtain c bs where
    b: "buf rw = None" and c: "compressor rw = Some c" and bs: "concat bs = done"
    and f: "fed ?A c (body (tw_ResponseWriter (ResponseWriter rw))) bs"
    by (auto simp: streaming_def)
  from compressor_Close_reliable [OF assms(3) f assms(2)] obtain c' tw where
    cc: "compressor_Close ?A (c, ResponseWriter rw) = (None, c', tw)"
    and d: "dec (body (tw_ResponseWriter tw)) = Some (concat bs)" by auto
  let ?rw' = "close_deferred (rw\<lparr>compressor := Some c', ResponseWriter := tw\<rparr>)"
  have "Close rw = (None, ?rw')" using b c cc by (simp add: Close_def close_body_def)
  moreover have "body (tw_ResponseWriter (ResponseWriter ?rw')) = body (tw_ResponseWriter tw)"
    by (simp add: close_deferred_def Let_def)
  moreover have "Swapped ?rw'" using b by (simp add: Swapped_def)
  ultimately show ?thesis using d bs by auto
qed

lemma stream_framing:
  "stream framing started bs = Some ((if started then [] else ''<'') @ concat bs @ ''>'')"
  by (induction bs arbitrary: started) (simp_all add: framing_def)

lemma lossless_framing: "lossless framing unframe"
  by (simp add: lossless_def getWriter_framing stream_framing unframe_def butlast_append)

text \<open>
  Claim C9, as stated, fails on a transport that refuses a write: with the lossless
  codec \<open>framing\<close>, threshold 4 and the body \<open>''hello''\<close>, a transport that takes the
  stream header and then refuses the data chunk after three bytes ends with a response
  body that decodes to \<open>''hel''\<close>.
\<close>

theorem round_trip_refused_counterexample:
  "lossless framing unframe \<and>
   4 \<le> int (length (body_of [CallWrite ''hello''])) \<and>
   list_ex is_write [CallWrite ''hello''] \<and>
   Swapped (snd (respond (fresh [Accept, Refuse 3 ''reset'']) 4 ''gzip'' framing [CallWrite ''hello''])) \<and>
   unframe (body (tw_ResponseWriter (ResponseWriter
      (snd (respond (fresh [Accept, Refuse 3 ''reset'']) 4 ''gzip'' framing [CallWrite ''hello''])))))
     = Some ''hel'' \<and>
   unframe (body (tw_ResponseWriter (ResponseWriter
      (snd (respond (fresh [Accept, Refuse 3 ''reset'']) 4 ''gzip'' framing [CallWrite ''hello''])))))
     \<noteq> Some (body_of [CallWrite ''hello''])"
  using lossless_framing by (simp add: eval_defs body_of_def unframe_def)

text \<open>
  Claim C9, amended. For every algorithm whose decoder is lossless, every threshold and
  every body that is written with at least one write and is at least the threshold
  long: on a transport that accepts every write, no call of the writer returns an
  error, the writer ends swapped, and the decoder, applied to the body the transport
  received for this response, gives back the bytes the application wrote. The algorithm
  is a parameter (the four codecs are libraries), so this is the writer's part of the
  round trip: the buffer is drained into the compressor first, every later write follows
  in order, and \<^verbatim>\<open>Close\<close> closes the stream.
\<close>

theorem compressed_body_round_trip:
  assumes "lossless a dec"
    and "reliable w" and "body w = []"
    and "swapSize \<le> int (length (body_of calls))"
    and "list_ex is_write calls"
    and "respond w swapSize enc a calls = (es, rw')"
  shows "list_all (\<lambda>e. e = None) es \<and> Swapped rw' \<and>
         dec (body (tw_ResponseWriter (ResponseWriter rw'))) = Some (body_of calls)"
proof -
  let ?new = "newResponseWriter w swapSize enc a"
  have b0: "buf ?new = Some []" and t0: "threshold ?new = swapSize"
    by (simp_all add: newResponseWriter_def)
  have "serving dec ?new []"
    using assms(1,2,3) by (simp add: serving_def newResponseWriter_def newTrackingResponseWriter_def)
  from handler_serving [OF this, of calls] obtain es1 rw1 where
    h: "handler ?new calls = (es1, rw1)" and ok: "list_all (\<lambda>e. e = None) es1"
    and s1: "serving dec rw1 (body_of calls)" by auto
  have "buf rw1 = None"
  proof (rule ccontr)
    assume "buf rw1 \<noteq> None"
    from handler_below_threshold [OF h ok this b0] assms(5) t0
    have "int (length (body_of calls)) < swapSize" by simp
    then show False using assms(4) by simp
  qed
  then have st: "streaming rw1 (body_of calls)"
    and r1: "reliable (tw_ResponseWriter (ResponseWriter rw1))" and l1: "lossless (algo rw1) dec"
    using s1 by (simp_all add: serving_def)
  from Close_streaming [OF st r1 l1] obtain rw2 where
    c: "Close rw1 = (None, rw2)" and sw: "Swapped rw2"
    and d: "dec (body (tw_ResponseWriter (ResponseWriter rw2))) = Some (body_of calls)" by auto
  have "respond w swapSize enc a calls = (es1 @ [None], rw2)"
    using h c by (simp add: respond_def)
  then have "es = es1 @ [None]" and "rw' = rw2" using assms(6) by simp_all
  then show ?thesis using ok sw d by simp
qed

text \<open>
  The witness: three writes of two bytes under threshold 4, the second of which swaps,
  on a transport that accepts every write; the transport holds the framed stream.
\<close>

theorem compressed_body_round_trip_witness:
  "lossless framing unframe \<and> reliable (fresh []) \<and> body (fresh []) = [] \<and>
   4 \<le> int (length (body_of [CallWrite ''ab'', CallWrite ''cd'', CallWriteString ''ef''])) \<and>
   list_ex is_write [CallWrite ''ab'', CallWrite ''cd'', CallWriteString ''ef''] \<and>
   fst (respond (fresh []) 4 ''gzip'' framing [CallWrite ''ab'', CallWrite ''cd'', CallWriteString ''ef''])
     = [None, None, None, None] \<and>
   body (tw_ResponseWriter (ResponseWriter
      (snd (respond (fresh []) 4 ''gzip'' framing [CallWrite ''ab'', CallWrite ''cd'', CallWriteString ''ef'']))))
     = ''<abcdef>'' \<and>
   unframe (body (tw_ResponseWriter (ResponseWriter
      (snd (respond (fresh []) 4 ''gzip'' framing [CallWrite ''ab'', CallWrite ''cd'', CallWriteString ''ef''])))))
     = Some ''abcdef''"
proof -
  let ?calls = "[CallWrite ''ab'', CallWrite ''cd'', CallWriteString ''ef'']"
  let ?r = "respond (fresh []) 4 ''gzip'' framing ?calls"
  have e: "fst ?r = [None, None, None, None]" by (simp add: eval_defs)
  have bd: "body (tw_ResponseWriter (ResponseWriter (snd ?r))) = ''<abcdef>''" by (simp add: eval_defs)
  have len: "4 \<le> int (length (body_of ?calls))" by (simp add: body_of_def)
  have wr: "list_ex is_write ?calls" by simp
  have r: "?r = (fst ?r, snd ?r)" by simp
  have rel: "reliable (fresh [])" and f: "body (fresh []) = []" by (simp_all add: fresh_def reliable_def)
  from compressed_body_round_trip [OF lossless_framing rel f len wr r]
  have "unframe (body (tw_ResponseWriter (ResponseWriter (snd ?r)))) = Some ''abcdef''"
    by (simp add: body_of_def)
  then show ?thesis using lossless_framing rel f e bd len wr by simp
qed

subsection \<open>What the transport sends\<close>

lemma transmits_refl: "transmits tw tw"
  by (simp add: transmits_def)

lemma transmits_trans: "transmits tw tw1 \<Longrightarrow> transmits tw1 tw2 \<Longrightarrow> transmits tw tw2"
  by (auto simp: transmits_def)

lemma tw_Write_transmits: "tw_Write tw b = (r, tw') \<Longrightarrow> transmits tw tw'"
  by (auto simp: tw_Write_def sink_Write_def transmits_def Let_def
      split: prod.splits option.splits list.splits outcome.splits)

lemma drive_transmits: "drive p tw = (r, tw') \<Longrightarrow> transmits tw tw'"
proof (induction p arbitrary: tw)
  case (Done x)
  then show ?case by (simp add: transmits_refl)
next
  case (Emit x k)
  obtain res tw1 where w: "tw_Write tw x = (res, tw1)" by (metis prod.exhaust)
  then have "drive (k res) tw1 = (r, tw')" using Emit.prems by simp
  from transmits_trans [OF tw_Write_transmits [OF w] Emit.IH [OF _ this]] show ?case
    by (simp add: range_eqI)
qed

lemma compressor_Write_transmits:
  "compressor_Write A (c, tw) b = (r, c', tw') \<Longrightarrow> transmits tw tw'"
  by (auto simp: compressor_Write_def split: prod.splits dest: drive_transmits)

lemma compressor_Close_transmits:
  "compressor_Close A (c, tw) = (r, c', tw') \<Longrightarrow> transmits tw tw'"
  by (auto simp: compressor_Close_def split: prod.splits dest: drive_transmits)

lemma io_Copy_compressor_transmits:
  "io_Copy (compressor_Write A) (c, tw) xs = (r, (c', tw'), rest) \<Longrightarrow> transmits tw tw'"
  by (auto simp: io_Copy_def transmits_refl split: if_splits prod.splits option.splits
      dest: compressor_Write_transmits)

lemma io_Copy_tracker_transmits:
  "io_Copy tw_Write tw xs = (r, tw', rest) \<Longrightarrow> transmits tw tw'"
  by (auto simp: io_Copy_def transmits_refl split: if_splits prod.splits option.splits
      dest: tw_Write_transmits)

text \<open>
  Within one \<^verbatim>\<open>Write\<close> the header map is changed before anything is written to the
  transport: if the transport sends the headers during the call, it sends the map the
  call ends with.
\<close>

lemma write_to_transmits:
  "write_to rw b = (r, rw') \<Longrightarrow> transmits (ResponseWriter rw) (ResponseWriter rw')"
  by (auto simp: write_to_def transmits_refl split: option.splits prod.splits
      dest: compressor_Write_transmits)

lemma write_to_quiet:
  "write_to rw b = (r, rw') \<Longrightarrow> buf rw \<noteq> None \<Longrightarrow> ResponseWriter rw' = ResponseWriter rw"
  by (auto simp: write_to_def split: option.splits prod.splits)

lemma ResponseWriter_Header:
  "header (tw_ResponseWriter (ResponseWriter rw)) = Header rw"
  by (simp add: Header_def)

lemma sent_map_Header [simp]:
  "sent (tw_ResponseWriter (ResponseWriter (map_Header f rw))) = sent (tw_ResponseWriter (ResponseWriter rw))"
  by (simp add: map_Header_def)

lemma swap_cases:
  assumes "swap rw b = (r, rw')"
  shows "(r = None \<and> rw' = rw) \<or>
         (\<not> Swapped rw \<and>
          transmits (ResponseWriter
             (map_Header (header_Set ''Vary'' ''Accept-Encoding'')
               (map_Header (header_Set ''Content-Encoding'' (encoding rw)) rw)))
            (ResponseWriter rw') \<and>
          encoding rw' = encoding rw \<and> (r = None \<longrightarrow> Swapped rw'))"
proof (cases "buf rw")
  case None
  then show ?thesis using assms by (simp add: swap_def)
next
  case (Some xs)
  show ?thesis
  proof (cases "threshold rw \<le> int (length xs) + int (length b)")
    case False
    then show ?thesis using assms Some by (simp add: swap_def)
  next
    case True
    let ?rw2 = "map_Header (header_Set ''Vary'' ''Accept-Encoding'')
               (map_Header (header_Set ''Content-Encoding'' (encoding rw)) rw)"
    obtain m e c tw rest where
      cp: "io_Copy (compressor_Write (algo rw)) (getWriter (algo rw), ResponseWriter ?rw2) xs
            = ((m, e), (c, tw), rest)"
      by (metis prod.exhaust)
    have "ResponseWriter rw' = tw \<and> encoding rw' = encoding rw \<and> (r = None \<longrightarrow> buf rw' = None)"
      using assms Some True cp by (cases e) (auto simp: swap_def Let_def)
    then show ?thesis
      using io_Copy_compressor_transmits [OF cp] Some by (simp add: Swapped_def)
  qed
qed

lemma write_to_encoding: "write_to rw b = (r, rw') \<Longrightarrow> encoding rw' = encoding rw"
  by (auto simp: write_to_def split: option.splits prod.splits)

lemma Write_headers:
  assumes "Write rw b = (r, rw')"
  shows "encoding rw' = encoding rw \<and>
         (Header rw' = header_Del ''Content-Length'' (Header rw) \<and> Swapped rw' = Swapped rw \<and>
            (sent (tw_ResponseWriter (ResponseWriter rw')) = sent (tw_ResponseWriter (ResponseWriter rw)) \<or>
             Swapped rw \<and> sent (tw_ResponseWriter (ResponseWriter rw)) = None \<and>
             sent (tw_ResponseWriter (ResponseWriter rw')) = Some (Header rw'))
          \<or>
          \<not> Swapped rw \<and>
            Header rw' = header_Set ''Vary'' ''Accept-Encoding''
              (header_Set ''Content-Encoding'' (encoding rw) (header_Del ''Content-Length'' (Header rw))) \<and>
            (sent (tw_ResponseWriter (ResponseWriter rw')) = sent (tw_ResponseWriter (ResponseWriter rw)) \<or>
             sent (tw_ResponseWriter (ResponseWriter rw)) = None \<and>
             sent (tw_ResponseWriter (ResponseWriter rw')) = Some (Header rw')))"
proof -
  let ?rw1 = "map_Header (header_Del ''Content-Length'') rw"
  let ?rw2 = "map_Header (header_Set ''Vary'' ''Accept-Encoding'')
               (map_Header (header_Set ''Content-Encoding'' (encoding ?rw1)) ?rw1)"
  obtain s rw2 where s: "swap ?rw1 b = (s, rw2)" by (metis prod.exhaust)
  obtain r3 rw3 where w: "write_to rw2 b = (r3, rw3)" by (metis prod.exhaust)
  have rw': "rw' = (case s of None \<Rightarrow> rw3 | Some ce \<Rightarrow> rw2)"
    using assms s w by (auto simp: Write_def split: option.splits)
  note t3 = write_to_transmits [OF w]
  from swap_cases [OF s] show ?thesis
  proof
    assume a: "s = None \<and> rw2 = ?rw1"
    then have rw3: "rw' = rw3" and w1: "write_to ?rw1 b = (r3, rw3)" using rw' w by simp_all
    have h: "Header rw' = header_Del ''Content-Length'' (Header rw)"
      using Header_write_to [OF w1] rw3 by simp
    have sw: "Swapped rw' = Swapped rw"
      using write_to_buf [OF w1] rw3 by (simp add: Swapped_def)
    have en: "encoding rw' = encoding rw" using write_to_encoding [OF w1] rw3 by simp
    show ?thesis
    proof (cases "buf rw")
      case None
      then have "Swapped rw" by (simp add: Swapped_def)
      then show ?thesis
        using write_to_transmits [OF w1] rw3 h sw en
        by (auto simp: transmits_def ResponseWriter_Header)
    next
      case (Some xs)
      then have "ResponseWriter rw3 = ResponseWriter ?rw1" using write_to_quiet [OF w1] by simp
      then show ?thesis using rw3 h sw en by simp
    qed
  next
    assume a: "\<not> Swapped ?rw1 \<and> transmits (ResponseWriter ?rw2) (ResponseWriter rw2) \<and>
          encoding rw2 = encoding ?rw1 \<and> (s = None \<longrightarrow> Swapped rw2)"
    have t: "transmits (ResponseWriter ?rw2) (ResponseWriter rw')"
    proof (cases s)
      case None
      then show ?thesis using a rw' transmits_trans [OF _ t3] by simp
    next
      case (Some ce)
      then show ?thesis using a rw' by simp
    qed
    have en: "encoding rw' = encoding rw"
      using a rw' write_to_encoding [OF w] by (cases s) simp_all
    have ns: "\<not> Swapped rw" using a by (simp add: Swapped_def)
    have "Header ?rw2 = header_Set ''Vary'' ''Accept-Encoding''
            (header_Set ''Content-Encoding'' (encoding rw) (header_Del ''Content-Length'' (Header rw)))"
      by simp
    then show ?thesis using t en ns by (auto simp: transmits_def ResponseWriter_Header)
  qed
qed

lemma announces_Del: "announces enc h \<Longrightarrow> announces enc (header_Del ''Content-Length'' h)"
  by (simp add: announces_def header_Del_def)

lemma announces_Set:
  "announces enc (header_Set ''Vary'' ''Accept-Encoding'' (header_Set ''Content-Encoding'' enc h))"
  by (simp add: announces_def header_Set_def)

lemma Write_announced:
  assumes "announced enc rw"
  shows "announced enc (snd (Write rw b))"
proof -
  obtain r rw' where w: "Write rw b = (r, rw')" by (metis prod.exhaust)
  from Write_headers [OF w] assms announces_Del [of enc "Header rw"]
    announces_Set [of enc "header_Del ''Content-Length'' (Header rw)"]
  have "announced enc rw'" unfolding announced_def by auto
  then show ?thesis using w by simp
qed

lemma WriteHeader_announced:
  assumes "announced enc rw"
  shows "announced enc (WriteHeader rw code)"
proof -
  have "Header (WriteHeader rw code) = header_Del ''Content-Length'' (Header rw)"
    and "sent (tw_ResponseWriter (ResponseWriter (WriteHeader rw code)))
          = sent (tw_ResponseWriter (ResponseWriter rw))"
    and "encoding (WriteHeader rw code) = encoding rw"
    and "Swapped (WriteHeader rw code) = Swapped rw"
    by (simp_all add: WriteHeader_def Header_def map_Header_def sink_WriteHeader_def Let_def Swapped_def)
  then show ?thesis using assms announces_Del [of enc "Header rw"] unfolding announced_def by auto
qed

lemma perform_announced: "announced enc rw \<Longrightarrow> announced enc (snd (perform rw c))"
  unfolding snd_perform by (simp add: Write_announced WriteHeader_announced split: call.splits)

lemma handler_announced: "announced enc rw \<Longrightarrow> announced enc (snd (handler rw calls))"
proof (induction calls arbitrary: rw)
  case Nil
  then show ?case by simp
next
  case (Cons c cs)
  have "snd (handler rw (c # cs)) = snd (handler (snd (perform rw c)) cs)"
    by (simp split: prod.splits)
  then show ?case using Cons.IH [OF perform_announced [OF Cons.prems, of c]] by simp
qed

lemma newResponseWriter_announced:
  "sent w = None \<Longrightarrow> announced enc (newResponseWriter w swapSize enc a)"
  by (simp add: announced_def newResponseWriter_def newTrackingResponseWriter_def Swapped_def)

lemma Close_announced:
  assumes "announced enc rw" and "Swapped rw"
  shows "announced enc (snd (Close rw))"
proof -
  obtain err rw1 where c: "close_body rw = (err, rw1)" by (metis prod.exhaust)
  have b: "buf rw = None" using assms(2) by (simp add: Swapped_def)
  have t: "transmits (ResponseWriter rw) (ResponseWriter rw1) \<and> encoding rw1 = encoding rw \<and> buf rw1 = None"
  proof (cases "compressor rw")
    case None
    then show ?thesis using c b by (simp add: close_body_def transmits_refl)
  next
    case (Some k)
    obtain e k' tw where cc: "compressor_Close (algo rw) (k, ResponseWriter rw) = (e, k', tw)"
      by (metis prod.exhaust)
    then have "rw1 = rw\<lparr>compressor := Some k', ResponseWriter := tw\<rparr>"
      using c b Some by (simp add: close_body_def)
    then show ?thesis using compressor_Close_transmits [OF cc] b by simp
  qed
  have "announced enc rw1"
    using t assms(1) b unfolding announced_def transmits_def ResponseWriter_Header
    by (auto simp: Swapped_def)
  moreover have "snd (Close rw) = close_deferred rw1" using c by (simp add: Close_def)
  moreover have "announced enc (close_deferred rw1) = announced enc rw1"
    by (simp add: announced_def close_deferred_def Let_def Swapped_def Header_def)
  ultimately show ?thesis by simp
qed

text \<open>
  The direction of claim C2 that holds, with the order it asks for: on a transport that
  had sent nothing, a response that ends swapped has both headers in the map, and
  whatever headers the transport sent in front of the first body byte had both.
\<close>

lemma swapped_announced_first:
  assumes "respond w swapSize enc a calls = (es, rw')" and "Swapped rw'" and "sent w = None"
  shows "announces enc (Header rw') \<and>
         (\<forall>h. sent (tw_ResponseWriter (ResponseWriter rw')) = Some h \<longrightarrow> announces enc h)"
proof -
  let ?rw1 = "snd (handler (newResponseWriter w swapSize enc a) calls)"
  have rw': "rw' = snd (Close ?rw1)" using assms(1) respond_snd [of w swapSize enc a calls] by simp
  have a1: "announced enc ?rw1"
    by (rule handler_announced [OF newResponseWriter_announced [OF assms(3)]])
  have "Swapped ?rw1" using assms(2) rw' Close_Swapped [of ?rw1] by simp
  from Close_announced [OF a1 this] show ?thesis using rw' assms(2) by (simp add: announced_def)
qed

text \<open>
  Claim C7. Every \<^verbatim>\<open>Write\<close>, \<^verbatim>\<open>WriteString\<close> and \<^verbatim>\<open>WriteHeader\<close> of the writer
  returns with no \<^verbatim>\<open>Content-Length\<close> in the response header map, whatever the
  application had stored there and whichever path the call took (buffered, swapping,
  streaming, or returning an error). So the header never reaches the client while the
  writer can still swap: if the transport sends the headers during a \<^verbatim>\<open>Write\<close>, it
  sends them without \<^verbatim>\<open>Content-Length\<close>, and \<^verbatim>\<open>WriteHeader\<close> sends nothing.
\<close>

theorem Content_Length_stripped:
  "Header (snd (Write rw b)) ''Content-Length'' = None \<and>
   Header (snd (WriteString rw s)) ''Content-Length'' = None \<and>
   Header (WriteHeader rw code) ''Content-Length'' = None \<and>
   (\<forall>h. sent (tw_ResponseWriter (ResponseWriter rw)) = None \<and>
        sent (tw_ResponseWriter (ResponseWriter (snd (Write rw b)))) = Some h \<longrightarrow>
        h ''Content-Length'' = None) \<and>
   sent (tw_ResponseWriter (ResponseWriter (WriteHeader rw code)))
     = sent (tw_ResponseWriter (ResponseWriter rw))"
proof -
  obtain r rw' where w: "Write rw b = (r, rw')" by (metis prod.exhaust)
  have c: "Header rw' ''Content-Length'' = None"
    using Header_Write_Content_Length [of rw b] w by simp
  have "h ''Content-Length'' = None"
    if "sent (tw_ResponseWriter (ResponseWriter rw)) = None"
      and "sent (tw_ResponseWriter (ResponseWriter rw')) = Some h" for h
    using Write_headers [OF w] that c by auto
  moreover have "sent (tw_ResponseWriter (ResponseWriter (WriteHeader rw code)))
      = sent (tw_ResponseWriter (ResponseWriter rw))"
    by (simp add: WriteHeader_def map_Header_def sink_WriteHeader_def Let_def)
  ultimately show ?thesis
    using w c by (simp add: WriteString_def Header_Write_Content_Length Header_WriteHeader_Content_Length)
qed

text \<open>
  The witness: the application has stored \<^verbatim>\<open>Content-Length: 5\<close>; the first write
  reaches the threshold, swaps, and the transport sends the headers: without
  \<^verbatim>\<open>Content-Length\<close>, with \<^verbatim>\<open>Content-Encoding: gzip\<close>.
\<close>

theorem Content_Length_stripped_witness:
  "Header (newResponseWriter ((fresh [])\<lparr>header := [''Content-Length'' \<mapsto> [''5'']]\<rparr>) 2 ''gzip'' framing)
      ''Content-Length'' = Some [''5''] \<and>
   sent (tw_ResponseWriter (ResponseWriter
      (newResponseWriter ((fresh [])\<lparr>header := [''Content-Length'' \<mapsto> [''5'']]\<rparr>) 2 ''gzip'' framing))) = None \<and>
   (\<exists>h. sent (tw_ResponseWriter (ResponseWriter (snd (Write
          (newResponseWriter ((fresh [])\<lparr>header := [''Content-Length'' \<mapsto> [''5'']]\<rparr>) 2 ''gzip'' framing)
          ''hello'')))) = Some h \<and>
        h ''Content-Length'' = None \<and> h ''Content-Encoding'' = Some [''gzip''])"
proof -
  let ?rw = "newResponseWriter ((fresh [])\<lparr>header := [''Content-Length'' \<mapsto> [''5'']]\<rparr>) 2 ''gzip'' framing"
  let ?h = "[''Content-Encoding'' \<mapsto> [''gzip''], ''Vary'' \<mapsto> [''Accept-Encoding'']]"
  have h0: "Header ?rw ''Content-Length'' = Some [''5'']" by (simp add: eval_defs)
  have s0: "sent (tw_ResponseWriter (ResponseWriter ?rw)) = None" by (simp add: eval_defs)
  have s1: "sent (tw_ResponseWriter (ResponseWriter (snd (Write ?rw ''hello'')))) = Some ?h"
    by (simp add: eval_defs fun_upd_twist)
  from Content_Length_stripped [of ?rw "''hello''" "''x''" 200] s0 s1
  have "?h ''Content-Length'' = None" by blast
  then show ?thesis using h0 s0 s1 by simp
qed

subsection \<open>A failed swap\<close>

text \<open>
  Claim C2 (the headers are set if and only if compression is applied) does not hold on
  the early return of \<^verbatim>\<open>Write\<close> at line 71. With threshold 4, the application
  writes \<open>''ab''\<close> and \<open>''cd''\<close>; the second write sets \<^verbatim>\<open>Content-Encoding\<close> and
  \<^verbatim>\<open>Vary\<close>, builds the compressor and drains the buffer into it; the transport
  takes the stream header of the codec and refuses the next write, \<^verbatim>\<open>io.Copy\<close> fails
  and \<^verbatim>\<open>Write\<close> returns before \<^verbatim>\<open>rw.buf = nil\<close>. The response ends with both
  headers set and sent, and with the first byte of a compressed stream on the transport,
  while \<open>Swapped\<close> is false and the metrics report says that no compression was
  applied.
\<close>

theorem headers_set_without_swap:
  "fst (respond (fresh [Accept, Refuse 0 ''broken pipe'']) 4 ''gzip'' framing [CallWrite ''ab'', CallWrite ''cd''])
     = [None, Some (TransportError ''broken pipe''), None] \<and>
   header_Get ''Content-Encoding''
     (Header (snd (respond (fresh [Accept, Refuse 0 ''broken pipe'']) 4 ''gzip'' framing [CallWrite ''ab'', CallWrite ''cd''])))
     = ''gzip'' \<and>
   header_Get ''Vary''
     (Header (snd (respond (fresh [Accept, Refuse 0 ''broken pipe'']) 4 ''gzip'' framing [CallWrite ''ab'', CallWrite ''cd''])))
     = ''Accept-Encoding'' \<and>
   sent (tw_ResponseWriter (ResponseWriter
     (snd (respond (fresh [Accept, Refuse 0 ''broken pipe'']) 4 ''gzip'' framing [CallWrite ''ab'', CallWrite ''cd'']))))
     = Some (Header (snd (respond (fresh [Accept, Refuse 0 ''broken pipe'']) 4 ''gzip'' framing [CallWrite ''ab'', CallWrite ''cd'']))) \<and>
   body (tw_ResponseWriter (ResponseWriter
     (snd (respond (fresh [Accept, Refuse 0 ''broken pipe'']) 4 ''gzip'' framing [CallWrite ''ab'', CallWrite ''cd'']))))
     = ''<'' \<and>
   \<not> Swapped (snd (respond (fresh [Accept, Refuse 0 ''broken pipe'']) 4 ''gzip'' framing [CallWrite ''ab'', CallWrite ''cd''])) \<and>
   metricsHandler (snd (respond (fresh [Accept, Refuse 0 ''broken pipe'']) 4 ''gzip'' framing [CallWrite ''ab'', CallWrite ''cd'']))
     = [\<lparr>OriginalSize = 2, CompressedSize = 2, CompressionApplied = False, EncodingUsed = []\<rparr>]"
  by (simp add: eval_defs header_Get_def)

section \<open>Properties of the negotiation and of the decompression pipeline\<close>

subsection \<open>The negotiation selects a maximum\<close>

lemma precedes_refl: "precedes cfg x x"
  by (simp add: precedes_def)

lemma precedes_total: "precedes cfg x y \<or> precedes cfg y x"
  by (auto simp: precedes_def)

lemma precedes_trans: "precedes cfg x y \<Longrightarrow> precedes cfg y z \<Longrightarrow> precedes cfg x z"
  by (auto simp: precedes_def)

text \<open>Two candidates that precede each other are the same: the maximum is unique.\<close>

lemma precedes_antisym:
  assumes "precedes cfg x y" and "precedes cfg y x"
  shows "x = y"
proof -
  have "snd x = snd y" and "rank (fst x) = rank (fst y)"
    using assms by (auto simp: precedes_def)
  moreover have "fst x = fst y" if "rank (fst x) = rank (fst y)"
    using that by (cases "fst x"; cases "fst y") simp_all
  ultimately show ?thesis by (simp add: prod_eq_iff)
qed

lemma keep_best_mem: "keep_best cfg best cs \<in> set (best # cs)"
  by (induction cs arbitrary: best) auto

lemma keep_best_precedes_start: "precedes cfg (keep_best cfg best cs) best"
proof (induction cs arbitrary: best)
  case Nil
  show ?case by (simp add: precedes_refl)
next
  case (Cons c cs)
  show ?case
  proof (cases "precedes cfg best c")
    case True
    then show ?thesis using Cons.IH [of best] by simp
  next
    case False
    then have "precedes cfg c best" using precedes_total [of cfg best c] by simp
    then show ?thesis using False Cons.IH [of c] precedes_trans by auto
  qed
qed

lemma keep_best_max:
  "c \<in> set (best # cs) \<Longrightarrow> precedes cfg (keep_best cfg best cs) c"
proof (induction cs arbitrary: best)
  case Nil
  then show ?case by (simp add: precedes_refl)
next
  case (Cons d ds)
  let ?b = "if precedes cfg best d then best else d"
  have k: "keep_best cfg best (d # ds) = keep_best cfg ?b ds" by simp
  have bb: "precedes cfg ?b best" "precedes cfg ?b d"
    using precedes_total [of cfg best d] by (auto simp: precedes_refl)
  from Cons.prems consider "c = best" | "c = d" | "c \<in> set ds" by auto
  then show ?case
  proof cases
    case 1
    then show ?thesis
      using keep_best_precedes_start [of cfg ?b ds] bb(1) precedes_trans k by metis
  next
    case 2
    then show ?thesis
      using keep_best_precedes_start [of cfg ?b ds] bb(2) precedes_trans k by metis
  next
    case 3
    then show ?thesis using Cons.IH [of ?b] k by simp
  qed
qed

lemma select_None: "select cfg cs = None \<longleftrightarrow> cs = []"
  by (simp add: select_def split: list.splits)

lemma select_Some:
  assumes "select cfg cs = Some a"
  shows "\<exists>q. (a, q) \<in> set cs \<and> (\<forall>c \<in> set cs. precedes cfg (a, q) c)"
proof -
  from assms obtain c cs' where cs: "cs = c # cs'" and a: "a = fst (keep_best cfg c cs')"
    by (auto simp: select_def split: list.splits)
  let ?w = "keep_best cfg c cs'"
  have "?w \<in> set cs" using keep_best_mem [of cfg c cs'] cs by simp
  moreover have "\<forall>d \<in> set cs. precedes cfg ?w d" using keep_best_max [of _ c cs' cfg] cs by simp
  ultimately show ?thesis using a by (intro exI [of _ "snd ?w"]) simp
qed

lemma known_identity: "known (identity a) = Some a"
  by (cases a) (simp_all add: known_def)

lemma known_Some: "known n = Some a \<Longrightarrow> n = identity a"
  by (auto simp: known_def split: if_splits)

lemma known_iff: "known n = Some a \<longleftrightarrow> n = identity a"
  using known_identity known_Some by blast

lemma identity_not_wildcard: "identity a \<noteq> ''*''"
  by (cases a) simp_all

lemma all_algorithms: "a \<in> set algorithms"
  by (cases a) (simp_all add: algorithms_def)

lemma candidates_of_iff:
  "(a, q) \<in> set (candidates_of cfg toks t) \<longleftrightarrow>
     enabled cfg a \<and> q \<noteq> 0 \<and> snd t = q \<and>
     (fst t = identity a \<or> (fst t = ''*'' \<and> \<not> rejected toks a))"
proof (cases "snd t = 0")
  case True
  then show ?thesis by (auto simp: candidates_of_def)
next
  case nz: False
  show ?thesis
  proof (cases "fst t = ''*''")
    case True
    then show ?thesis
      using nz all_algorithms [of a] identity_not_wildcard [of a]
      by (auto simp: candidates_of_def)
  next
    case False
    then have c: "candidates_of cfg toks t =
        (case known (fst t) of Some b \<Rightarrow> if enabled cfg b then [(b, snd t)] else [] | None \<Rightarrow> [])"
      using nz by (simp add: candidates_of_def)
    show ?thesis
    proof (cases "known (fst t)")
      case None
      then have "fst t \<noteq> identity a" using known_identity [of a] by auto
      then show ?thesis using c None False by simp
    next
      case (Some b)
      then have fb: "fst t = identity b" by (rule known_Some)
      have inj: "identity b = identity a \<longleftrightarrow> b = a"
        using known_identity [of a] known_identity [of b] by (metis option.inject)
      show ?thesis using c Some fb inj False nz by auto
    qed
  qed
qed

lemma candidates_iff:
  "(a, q) \<in> set (candidates cfg toks) \<longleftrightarrow>
     enabled cfg a \<and> q \<noteq> 0 \<and>
     ((identity a, q) \<in> set toks \<or> ((''*'', q) \<in> set toks \<and> \<not> rejected toks a))"
proof -
  have "(a, q) \<in> set (candidates cfg toks) \<longleftrightarrow> (\<exists>t \<in> set toks. (a, q) \<in> set (candidates_of cfg toks t))"
    by (auto simp: candidates_def)
  also have "\<dots> \<longleftrightarrow> enabled cfg a \<and> q \<noteq> 0 \<and>
     ((identity a, q) \<in> set toks \<or> ((''*'', q) \<in> set toks \<and> \<not> rejected toks a))"
    unfolding candidates_of_iff by force
  finally show ?thesis .
qed

lemma qvalue_range: "0 \<le> qvalue pf p \<and> qvalue pf p \<le> 1"
  by (simp add: qvalue_def split: option.splits)

lemma tokens_range: "(n, q) \<in> set (tokens pf h) \<Longrightarrow> 0 \<le> q \<and> q \<le> 1"
  using qvalue_range [of pf]
  by (auto simp: tokens_def parse_token_def split: list.splits)

lemma candidates_admits:
  "(a, q) \<in> set (candidates cfg (tokens pf h)) \<longleftrightarrow> admits cfg (tokens pf h) a q"
  unfolding candidates_iff admits_def rejected_def
  using tokens_range [of "identity a" q pf h] tokens_range [of "''*''" q pf h] by auto


lemmas negotiate_defs = negotiate_def tokens_def parse_token_def qvalue_def trim_def candidates_def
  candidates_of_def rejected_def known_def select_def precedes_def algorithms_def defaults_def tenths_def

text \<open>
  Claim C5, as stated, fails for a request the exclusion predicate holds for: the header
  \<open>gzip\<close> admits the enabled algorithm gzip with \<open>q = 1\<close>, and the negotiation
  returns no compression (section 4.1 step 1).
\<close>

theorem negotiation_excluded_counterexample:
  "admits defaults (tokens tenths ''gzip'') Gzip 1 \<and>
   negotiate tenths defaults True (Some ''gzip'') = None \<and>
   negotiate tenths defaults False (Some ''gzip'') = Some Gzip"
  by (simp add: negotiate_defs admits_def)

text \<open>
  Claim C5, amended. For every header, configuration and float parser, when no
  exclusion predicate holds for the request: an algorithm the negotiation returns is
  admitted by the header (enabled, \<open>q > 0\<close>, named by a token or covered by the
  wildcard) with a weight \<open>q\<close> such that its key precedes the key of everything the
  header admits (higher \<open>q\<close>, then higher priority, then the fallback order brotli,
  gzip, deflate, zstd); the negotiation returns no compression only when the header is
  absent or empty or admits nothing; and it does return no compression when the header
  is absent or empty or every token has \<open>q = 0\<close>.
\<close>

theorem negotiation_selects_best:
  assumes "\<not> excluded"
  shows "(case negotiate pf cfg excluded hdr of
            Some a \<Rightarrow>
              (\<exists>h q. hdr = Some h \<and> admits cfg (tokens pf h) a q \<and>
                 (\<forall>b q'. admits cfg (tokens pf h) b q' \<longrightarrow> precedes cfg (a, q) (b, q')))
          | None \<Rightarrow>
              hdr = None \<or> hdr = Some [] \<or>
              (\<forall>h b q'. hdr = Some h \<longrightarrow> \<not> admits cfg (tokens pf h) b q')) \<and>
         (hdr = None \<or> hdr = Some [] \<or> (\<exists>h. hdr = Some h \<and> (\<forall>t \<in> set (tokens pf h). snd t = 0))
            \<longrightarrow> negotiate pf cfg excluded hdr = None)"
proof (intro conjI impI)
  show "case negotiate pf cfg excluded hdr of
            Some a \<Rightarrow>
              (\<exists>h q. hdr = Some h \<and> admits cfg (tokens pf h) a q \<and>
                 (\<forall>b q'. admits cfg (tokens pf h) b q' \<longrightarrow> precedes cfg (a, q) (b, q')))
          | None \<Rightarrow>
              hdr = None \<or> hdr = Some [] \<or>
              (\<forall>h b q'. hdr = Some h \<longrightarrow> \<not> admits cfg (tokens pf h) b q')"
  proof (cases "negotiate pf cfg excluded hdr")
    case None
    show ?thesis
    proof (cases hdr)
      case hNone: None
      then show ?thesis using None by simp
    next
      case (Some h)
      show ?thesis
      proof (cases "h = []")
        case True
        then show ?thesis using None Some by simp
      next
        case False
        then have "select cfg (candidates cfg (tokens pf h)) = None"
          using None Some assms by (simp add: negotiate_def)
        then have "candidates cfg (tokens pf h) = []" by (simp add: select_None)
        then have "\<not> admits cfg (tokens pf h) b q'" for b q'
          using candidates_admits [of b q' cfg pf h] by simp
        then show ?thesis using None Some by simp
      qed
    qed
  next
    case (Some a)
    then obtain h where h: "hdr = Some h" "h \<noteq> []"
      and s: "select cfg (candidates cfg (tokens pf h)) = Some a"
      using assms by (auto simp: negotiate_def split: option.splits if_splits)
    from select_Some [OF s] obtain q where
      q: "(a, q) \<in> set (candidates cfg (tokens pf h))"
      and m: "\<forall>c \<in> set (candidates cfg (tokens pf h)). precedes cfg (a, q) c" by auto
    have "admits cfg (tokens pf h) a q" using q by (simp add: candidates_admits)
    moreover have "precedes cfg (a, q) (b, q')" if "admits cfg (tokens pf h) b q'" for b q'
      using that m candidates_admits [of b q' cfg pf h] by auto
    ultimately show ?thesis using Some h by auto
  qed
next
  assume a: "hdr = None \<or> hdr = Some [] \<or> (\<exists>h. hdr = Some h \<and> (\<forall>t \<in> set (tokens pf h). snd t = 0))"
  show "negotiate pf cfg excluded hdr = None"
  proof (cases "hdr = None \<or> hdr = Some []")
    case True
    then show ?thesis by (auto simp: negotiate_def)
  next
    case False
    then obtain h where h: "hdr = Some h" and z: "\<forall>t \<in> set (tokens pf h). snd t = 0"
      using a by auto
    have "(b, q) \<notin> set (candidates cfg (tokens pf h))" for b q
      using z by (auto simp: candidates_iff)
    then have "candidates cfg (tokens pf h) = []" by (cases "candidates cfg (tokens pf h)") auto
    then show ?thesis using h by (simp add: negotiate_def select_def)
  qed
qed

text \<open>
  The witness: the header of \<^verbatim>\<open>TestQ\<close> under the default configuration selects
  gzip, whose key precedes the key of brotli at \<open>q = 0.5\<close>; the header \<open>gzip;q=0\<close>,
  whose one token has \<open>q = 0\<close>, selects nothing.
\<close>

theorem negotiation_selects_best_witness:
  "negotiate tenths defaults False (Some ''br;q=0.5, gzip;q=0.7, deflate;q=0.3'') = Some Gzip \<and>
   admits defaults (tokens tenths ''br;q=0.5, gzip;q=0.7, deflate;q=0.3'') Brotli (5 / 10) \<and>
   (\<exists>q. admits defaults (tokens tenths ''br;q=0.5, gzip;q=0.7, deflate;q=0.3'') Gzip q \<and>
        precedes defaults (Gzip, q) (Brotli, 5 / 10)) \<and>
   list_all (\<lambda>t. snd t = 0) (tokens tenths ''gzip;q=0'') \<and>
   negotiate tenths defaults False (Some ''gzip;q=0'') = None"
proof -
  let ?h = "''br;q=0.5, gzip;q=0.7, deflate;q=0.3''"
  have n: "negotiate tenths defaults False (Some ?h) = Some Gzip"
    by (simp add: negotiate_defs)
  have b: "admits defaults (tokens tenths ?h) Brotli (5 / 10)"
    by (simp add: negotiate_defs admits_def)
  have ne: "\<not> False" by simp
  from negotiation_selects_best [OF ne, where pf = tenths and cfg = defaults and hdr = "Some ?h"] n
  obtain q where "admits defaults (tokens tenths ?h) Gzip q"
    and "\<forall>b q'. admits defaults (tokens tenths ?h) b q' \<longrightarrow> precedes defaults (Gzip, q) (b, q')"
    by auto
  then have g: "\<exists>q. admits defaults (tokens tenths ?h) Gzip q \<and> precedes defaults (Gzip, q) (Brotli, 5 / 10)"
    using b by blast
  have z: "list_all (\<lambda>t. snd t = 0) (tokens tenths ''gzip;q=0'')"
    by (simp add: negotiate_defs)
  then have "\<forall>t \<in> set (tokens tenths ''gzip;q=0''). snd t = 0" by (simp add: list_all_iff)
  with negotiation_selects_best [OF ne, where pf = tenths and cfg = defaults and hdr = "Some ''gzip;q=0''"]
  have e: "negotiate tenths defaults False (Some ''gzip;q=0'') = None" by blast
  show ?thesis using n b g z e by blast
qed

subsection \<open>The decompression pipeline rejects\<close>

lemma stages_Cons:
  "stages cfg (t # ts) = None \<longleftrightarrow> \<not> supported cfg t \<or> stages cfg ts = None"
  by (simp add: supported_def split: option.splits)

lemma stages_None: "stages cfg ts = None \<longleftrightarrow> (\<exists>t \<in> set ts. \<not> supported cfg t)"
proof (induction ts)
  case Nil
  show ?case by simp
next
  case (Cons t ts)
  show ?case unfolding stages_Cons Cons.IH by simp
qed

text \<open>
  Claim C6, as stated, fails when request decompression is switched off: the pipeline
  returns the body reader unchanged (section 4.3 step 1), also for a header that names an
  unknown algorithm or has more tokens than \<open>maxDecodeSteps\<close>.
\<close>

theorem decompress_disabled_counterexample:
  "\<not> supported (defaults\<lparr>decompressEnabled := False\<rparr>) ''doesnotexist'' \<and>
   encodings ''doesnotexist'' = [''doesnotexist''] \<and>
   decompress (defaults\<lparr>decompressEnabled := False\<rparr>) (Some ''doesnotexist'') = Wrap [] \<and>
   maxDecodeSteps (defaults\<lparr>decompressEnabled := False\<rparr>) < int (length (encodings ''gzip, gzip'')) \<and>
   decompress (defaults\<lparr>decompressEnabled := False\<rparr>) (Some ''gzip, gzip'') = Wrap []"
  by (simp add: decompress_def supported_def known_def defaults_def encodings_def trim_def)

text \<open>
  Claim C6, amended. When request decompression is enabled, every request whose
  \<^verbatim>\<open>Content-Encoding\<close> header has a token that names an unknown or disabled
  algorithm, or has more tokens than \<open>maxDecodeSteps\<close>, is rejected by the pipeline: no
  reader, raw or partly decoded, is handed on. (The pipeline runs before the
  application by the order of the request handler, which is outside this function.)
\<close>

theorem unsupported_encoding_rejected:
  assumes "decompressEnabled cfg"
    and "(\<exists>t \<in> set (encodings h). \<not> supported cfg t) \<or>
         maxDecodeSteps cfg < int (length (encodings h))"
  shows "decompress cfg (Some h) = Reject"
proof (cases "maxDecodeSteps cfg < int (length (encodings h))")
  case True
  then show ?thesis using assms(1) by (simp add: decompress_def split: option.splits)
next
  case False
  then have "take (nat (maxDecodeSteps cfg)) (encodings h) = encodings h" by simp
  moreover have "stages cfg (encodings h) = None"
    using assms(2) False by (simp add: stages_None)
  ultimately show ?thesis using assms(1) by (simp add: decompress_def)
qed

text \<open>
  The witness: under the defaults (one decode step) the double encoding
  \<open>gzip, gzip\<close> of section 8 is rejected, and so is an unknown encoding; a single
  \<open>gzip\<close> is decoded.
\<close>

theorem unsupported_encoding_rejected_witness:
  "decompressEnabled defaults \<and>
   maxDecodeSteps defaults < int (length (encodings ''gzip, gzip'')) \<and>
   decompress defaults (Some ''gzip, gzip'') = Reject \<and>
   list_ex (\<lambda>t. \<not> supported defaults t) (encodings ''doesnotexist'') \<and>
   decompress defaults (Some ''doesnotexist'') = Reject \<and>
   decompress defaults (Some ''gzip'') = Wrap [Gzip]"
proof -
  have d: "decompressEnabled defaults" by (simp add: defaults_def)
  have m: "maxDecodeSteps defaults < int (length (encodings ''gzip, gzip''))"
    by (simp add: defaults_def encodings_def trim_def)
  have u: "list_ex (\<lambda>t. \<not> supported defaults t) (encodings ''doesnotexist'')"
    by (simp add: defaults_def encodings_def trim_def supported_def known_def)
  then have u': "\<exists>t \<in> set (encodings ''doesnotexist''). \<not> supported defaults t"
    by (simp add: list_ex_iff)
  have g: "decompress defaults (Some ''gzip'') = Wrap [Gzip]"
    by (simp add: decompress_def defaults_def encodings_def trim_def known_def)
  from unsupported_encoding_rejected [OF d, of "''gzip, gzip''"] m
  have r1: "decompress defaults (Some ''gzip, gzip'') = Reject" by simp
  from unsupported_encoding_rejected [OF d, of "''doesnotexist''"] u'
  have r2: "decompress defaults (Some ''doesnotexist'') = Reject" by simp
  show ?thesis using d m u g r1 r2 by simp
qed

end
